theory Spec2Isabelle
  imports Complex_Main "HOL-Library.Sublist"
begin

section \<open>The Apps Script poller (poller.js)\<close>

text \<open>
  The poller is an Apps Script program. Everything it touches outside its own code is made
  explicit here: the script properties (\<open>PropertiesService\<close>) are a record that is passed
  through and returned updated, and the calls that leave the script (\<open>Drive.Files.list\<close>,
  \<open>UrlFetchApp.fetch\<close>, \<open>Utilities.sleep\<close>, \<open>console\<close>) are recorded, in order and together
  with what they answered, in a trace. What the outside world answers is given by an
  environment, one per invocation.
\<close>

subsection \<open>Script properties\<close>

text \<open>
  \<open>PROP\<close>: the six keys the script reads or writes. A key that is not set is \<open>None\<close>
  (\<open>getProperty\<close> returns \<open>null\<close>). \<open>SEEN_IDS_JSON\<close> holds the JSON text of an array of
  file ids; only \<open>persistSeenIds\<close> writes it, with \<open>JSON.stringify\<close> of an array of
  strings, and \<open>JSON.parse\<close> gives that array back, so the property is kept as the array
  itself.
\<close>

record script_properties =
  FOLDER_ID :: "string option"
  INGRESS_URL :: "string option"
  API_KEY :: "string option"
  LOOKBACK_MINUTES :: "string option"
  LAST_RUN_ISO :: "string option"
  SEEN_IDS_JSON :: "string list option"

text \<open>JavaScript truthiness of a string or \<open>null\<close>: \<open>null\<close> and the empty string are falsy.\<close>

definition truthy :: "string option \<Rightarrow> bool" where
  "truthy v = (case v of None \<Rightarrow> False | Some s \<Rightarrow> s \<noteq> [])"

text \<open>\<open>v || d\<close> for a string or \<open>null\<close> on the left.\<close>

definition or_else :: "string option \<Rightarrow> string \<Rightarrow> string" where
  "or_else v d = (case v of None \<Rightarrow> d | Some s \<Rightarrow> if s = [] then d else s)"

subsection \<open>Built-ins: parseInt and Date.prototype.toISOString\<close>

text \<open>
  A \<open>char\<close> stands for a code unit below 256, so the strings of the model are the
  JavaScript strings over U+0000 to U+00FF. The white space that \<open>parseInt\<close> skips
  (\<open>StrWhiteSpaceChar\<close>) is, in that range, tab, line feed, vertical tab, form feed,
  carriage return, space and the no-break space U+00A0.
\<close>

definition js_whitespace :: "char \<Rightarrow> bool" where
  "js_whitespace c =
     (c \<in> set [CHR 0x09, CHR 0x0A, CHR 0x0B, CHR 0x0C, CHR 0x0D, CHR 0x20, CHR 0xA0])"

definition is_digit :: "char \<Rightarrow> bool" where
  "is_digit c = (48 \<le> (of_char c :: int) \<and> (of_char c :: int) \<le> 57)"

definition digits_value :: "string \<Rightarrow> int" where
  "digits_value ds = foldl (\<lambda>acc c. 10 * acc + ((of_char c :: int) - 48)) 0 ds"

text \<open>
  \<open>parseInt(s, 10)\<close>: leading white space is skipped, one sign is read, then the longest
  run of decimal digits; with no digit the result is \<open>NaN\<close>, which is \<open>None\<close> here.
\<close>

definition parseInt :: "string \<Rightarrow> int option" where
  "parseInt s =
     (let t = dropWhile js_whitespace s;
          neg = (t \<noteq> [] \<and> hd t = CHR ''-'');
          u = (if t \<noteq> [] \<and> (hd t = CHR ''-'' \<or> hd t = CHR ''+'') then tl t else t);
          ds = takeWhile is_digit u
      in if ds = [] then None
         else Some (if neg then - digits_value ds else digits_value ds))"

text \<open>A time value is a number of milliseconds since the epoch; a Date holds one only within
  \<open>\<plusminus>8.64e15\<close>, and is an Invalid Date otherwise.\<close>

definition valid_time :: "int \<Rightarrow> bool" where
  "valid_time t = (\<bar>t\<bar> \<le> 8640000000000000)"

text \<open>The last \<open>k\<close> decimal digits of a number that is not negative.\<close>

fun digits :: "nat \<Rightarrow> int \<Rightarrow> string" where
  "digits 0 n = []"
| "digits (Suc k) n = digits k (n div 10) @ [char_of (48 + n mod 10)]"

text \<open>The proleptic Gregorian date of a day number (days since 1970-01-01).\<close>

definition civil_from_days :: "int \<Rightarrow> int \<times> int \<times> int" where
  "civil_from_days z0 =
     (let z = z0 + 719468;
          era = z div 146097;
          doe = z mod 146097;
          yoe = (doe - doe div 1460 + doe div 36524 - doe div 146096) div 365;
          doy = doe - (365 * yoe + yoe div 4 - yoe div 100);
          mp = (5 * doy + 2) div 153;
          d = doy - (153 * mp + 2) div 5 + 1;
          m = (if mp < 10 then mp + 3 else mp - 9);
          y = yoe + era * 400 + (if m \<le> 2 then 1 else 0)
      in (y, m, d))"

definition year_string :: "int \<Rightarrow> string" where
  "year_string y =
     (if 0 \<le> y \<and> y \<le> 9999 then digits 4 y
      else (if y < 0 then ''-'' else ''+'') @ digits 6 \<bar>y\<bar>)"

text \<open>\<open>toISOString\<close> throws a RangeError on an Invalid Date: \<open>None\<close>.\<close>

definition toISOString :: "int \<Rightarrow> string option" where
  "toISOString t =
     (if valid_time t then
        (let ms = t mod 86400000;
             ymd = civil_from_days (t div 86400000)
         in Some (year_string (fst ymd) @ ''-'' @ digits 2 (fst (snd ymd)) @ ''-''
                  @ digits 2 (snd (snd ymd)) @ ''T''
                  @ digits 2 (ms div 3600000) @ '':'' @ digits 2 (ms div 60000 mod 60) @ '':''
                  @ digits 2 (ms div 1000 mod 60) @ ''.'' @ digits 3 (ms mod 1000) @ ''Z''))
      else None)"

subsection \<open>The outside world\<close>

record drive_file =
  f_id :: string
  f_name :: string
  f_mimeType :: string
  f_createdTime :: string

record page =
  files :: "drive_file list option"
  nextPageToken :: "string option"

record payload =
  p_fileId :: string
  p_name :: string
  p_mimeType :: string
  p_createdTime :: string
  p_folderId :: string

text \<open>A request of \<open>postToIngress\<close>: the method, content type and \<open>muteHttpExceptions\<close> are
  the same in every request; the url, the \<open>X-API-Key\<close> header and the payload vary.\<close>

record fetch_request =
  rq_url :: string
  rq_api_key :: string
  rq_payload :: payload

datatype fetch_result = HttpResponse int string | FetchException string

datatype drive_result = DrivePage page | DriveException string

datatype event =
    DriveFilesList string "string option" drive_result
  | UrlFetch fetch_request fetch_result
  | Sleep nat
  | ConsoleWarnResponse int string
  | ConsoleWarnError nat string
  | ConsoleLogPosted nat string

text \<open>
  One invocation's environment: the clock read by \<open>new Date()\<close>, what \<open>Drive.Files.list\<close>
  answers for a query and a page token (a page, or an exception), and what the \<open>n\<close>-th
  \<open>UrlFetchApp.fetch\<close> of the invocation answers (a response, or an exception).
\<close>

record env =
  now :: int
  drive :: "string \<Rightarrow> string option \<Rightarrow> drive_result"
  net :: "nat \<Rightarrow> fetch_request \<Rightarrow> fetch_result"

record world =
  props :: script_properties
  fetches :: nat
  trace :: "event list"

datatype error = MissingProperties | RangeError | DriveError string

text \<open>How an invocation ends: it returns, it throws, or the page loop was cut after the
  given number of pages (the loop has no bound of its own).\<close>

datatype completion = Returned | Threw error | OutOfFuel

subsection \<open>loadConfig\<close>

record config =
  folderId :: string
  endpoint :: string
  apiKey :: string
  lookbackMinutes :: "int option"

definition loadConfig :: "script_properties \<Rightarrow> error + config" where
  "loadConfig p =
     (let lookback = parseInt (or_else (LOOKBACK_MINUTES p) ''5'')
      in if \<not> truthy (FOLDER_ID p) \<or> \<not> truthy (INGRESS_URL p) \<or> \<not> truthy (API_KEY p)
         then Inl MissingProperties
         else Inr \<lparr>folderId = the (FOLDER_ID p), endpoint = the (INGRESS_URL p),
                   apiKey = the (API_KEY p), lookbackMinutes = lookback\<rparr>)"

subsection \<open>computeSinceIso\<close>

text \<open>
  \<open>since\<close> is \<open>now - lookbackMinutes * 60 * 1000\<close>; with \<open>lookbackMinutes = NaN\<close> it is an
  Invalid Date. The property \<open>LAST_RUN_ISO\<close> is written before \<open>since.toISOString()\<close> is
  evaluated. The arithmetic is on doubles in the script; every value that leads to a valid
  Date is an integer below \<open>2^53\<close> in absolute value, where doubles are exact, and a value
  beyond that is an Invalid Date in both readings.
\<close>

definition computeSinceIso :: "env \<Rightarrow> int option \<Rightarrow> world \<Rightarrow> world \<times> (error + string)" where
  "computeSinceIso e lookback w =
     (let since = map_option (\<lambda>l. now e - l * 60 * 1000) lookback
      in case toISOString (now e) of
           None \<Rightarrow> (w, Inl RangeError)
         | Some nowIso \<Rightarrow>
             (let w1 = w\<lparr>props := (props w)\<lparr>LAST_RUN_ISO := Some nowIso\<rparr>\<rparr>
              in case Option.bind since toISOString of
                   None \<Rightarrow> (w1, Inl RangeError)
                 | Some sinceIso \<Rightarrow> (w1, Inr sinceIso)))"

subsection \<open>The seen-ID cache\<close>

text \<open>A JavaScript \<open>Set\<close> of strings keeps its elements in insertion order: a list without
  repetition, oldest first.\<close>

type_synonym js_set = "string list"

definition set_has :: "js_set \<Rightarrow> string \<Rightarrow> bool" where
  "set_has s x = (x \<in> set s)"

definition set_add :: "js_set \<Rightarrow> string \<Rightarrow> js_set" where
  "set_add s x = (if x \<in> set s then s else s @ [x])"

definition new_Set :: "string list \<Rightarrow> js_set" where
  "new_Set arr = foldl set_add [] arr"

text \<open>\<open>arr.slice(-n)\<close>: the last \<open>n\<close> elements, or all of them when there are fewer.\<close>

definition slice_last :: "nat \<Rightarrow> 'a list \<Rightarrow> 'a list" where
  "slice_last n arr = drop (length arr - n) arr"

definition loadSeenIds :: "script_properties \<Rightarrow> js_set" where
  "loadSeenIds p =
     (let arr = (case SEEN_IDS_JSON p of None \<Rightarrow> [] | Some a \<Rightarrow> a)
      in new_Set (slice_last 500 arr))"

definition persistSeenIds :: "js_set \<Rightarrow> world \<Rightarrow> world" where
  "persistSeenIds seenSet w =
     (let trimmed = slice_last 500 seenSet
      in w\<lparr>props := (props w)\<lparr>SEEN_IDS_JSON := Some trimmed\<rparr>\<rparr>)"

subsection \<open>postToIngress\<close>

definition attempts :: nat where
  "attempts = 3"

definition success_code :: "int \<Rightarrow> bool" where
  "success_code code = (200 \<le> code \<and> code < 300)"

function postToIngress_loop :: "env \<Rightarrow> fetch_request \<Rightarrow> nat \<Rightarrow> world \<Rightarrow> world \<times> bool" where
  "postToIngress_loop e rq i w =
     (if i \<le> attempts then
        (let r = net e (fetches w) rq;
             w1 = w\<lparr>fetches := Suc (fetches w), trace := trace w @ [UrlFetch rq r]\<rparr>
         in case r of
              HttpResponse code body \<Rightarrow>
                if success_code code then (w1, True)
                else postToIngress_loop e rq (i + 1)
                       (w1\<lparr>trace := trace w1 @ [ConsoleWarnResponse code body, Sleep (500 * i)]\<rparr>)
            | FetchException msg \<Rightarrow>
                postToIngress_loop e rq (i + 1)
                  (w1\<lparr>trace := trace w1 @ [ConsoleWarnError i msg, Sleep (500 * i)]\<rparr>))
      else (w, False))"
  by pat_completeness auto
termination
  by (relation "measure (\<lambda>(e, rq, i, w). attempts + 1 - i)") auto

declare postToIngress_loop.simps [simp del]

definition postToIngress :: "env \<Rightarrow> string \<Rightarrow> string \<Rightarrow> payload \<Rightarrow> world \<Rightarrow> world \<times> bool" where
  "postToIngress e url key obj w =
     postToIngress_loop e \<lparr>rq_url = url, rq_api_key = key, rq_payload = obj\<rparr> 1 w"

subsection \<open>pollFolder\<close>

definition quote :: string where
  "quote = [CHR 0x27]"

fun join :: "string \<Rightarrow> string list \<Rightarrow> string" where
  "join sep [] = []"
| "join sep [x] = x"
| "join sep (x # y # ys) = x @ sep @ join sep (y # ys)"

definition build_query :: "config \<Rightarrow> string \<Rightarrow> string" where
  "build_query cfg sinceIso =
     join '' and ''
       [quote @ folderId cfg @ quote @ '' in parents'',
        ''trashed = false'',
        ''createdTime >= '' @ quote @ sinceIso @ quote]"

text \<open>The body of the \<open>forEach\<close> over one page; the state is the seen set, \<open>count\<close> and the
  world.\<close>

definition forEach_body :: "env \<Rightarrow> config \<Rightarrow> js_set \<times> nat \<times> world \<Rightarrow> drive_file \<Rightarrow> js_set \<times> nat \<times> world" where
  "forEach_body e cfg st f =
     (case st of (seen, count, w) \<Rightarrow>
        if set_has seen (f_id f) then (seen, count, w)
        else
          (let obj = \<lparr>p_fileId = f_id f, p_name = f_name f, p_mimeType = f_mimeType f,
                      p_createdTime = f_createdTime f, p_folderId = folderId cfg\<rparr>;
               r = postToIngress e (endpoint cfg) (apiKey cfg) obj w
           in if snd r then (set_add seen (f_id f), count + 1, fst r)
              else (seen, count, fst r)))"

text \<open>The \<open>do ... while (pageToken)\<close> loop. It runs as long as Drive hands out page tokens;
  the first argument bounds the number of pages.\<close>

fun page_loop :: "nat \<Rightarrow> env \<Rightarrow> config \<Rightarrow> string \<Rightarrow> string option \<Rightarrow> js_set \<times> nat \<times> world
    \<Rightarrow> (js_set \<times> nat \<times> world) \<times> completion" where
  "page_loop 0 e cfg query pageToken st = (st, OutOfFuel)"
| "page_loop (Suc n) e cfg query pageToken st =
     (case st of (seen, count, w) \<Rightarrow>
        (let res = drive e query pageToken;
             w1 = w\<lparr>trace := trace w @ [DriveFilesList query pageToken res]\<rparr>
         in case res of
              DriveException msg \<Rightarrow> ((seen, count, w1), Threw (DriveError msg))
            | DrivePage pg \<Rightarrow>
                (let st1 = foldl (forEach_body e cfg) (seen, count, w1)
                             (case files pg of None \<Rightarrow> [] | Some fs \<Rightarrow> fs)
                 in if truthy (nextPageToken pg)
                    then page_loop n e cfg query (nextPageToken pg) st1
                    else (st1, Returned))))"

definition pollFolder :: "nat \<Rightarrow> env \<Rightarrow> script_properties \<Rightarrow> script_properties \<times> event list \<times> completion" where
  "pollFolder fuel e p =
     (let w0 = \<lparr>props = p, fetches = 0, trace = []\<rparr>
      in case loadConfig p of
           Inl err \<Rightarrow> (p, [], Threw err)
         | Inr cfg \<Rightarrow>
             (case computeSinceIso e (lookbackMinutes cfg) w0 of
                (w1, Inl err) \<Rightarrow> (props w1, trace w1, Threw err)
              | (w1, Inr sinceIso) \<Rightarrow>
                  (let seen = loadSeenIds (props w1);
                       query = build_query cfg sinceIso
                   in case page_loop fuel e cfg query None (seen, 0, w1) of
                        ((seen2, count, w2), Returned) \<Rightarrow>
                          (let w3 = persistSeenIds seen2 w2
                           in (props w3, trace w3 @ [ConsoleLogPosted count sinceIso], Returned))
                      | ((seen2, count, w2), c) \<Rightarrow> (props w2, trace w2, c))))"

subsection \<open>Sequences of invocations\<close>

text \<open>The time-driven trigger runs \<open>pollFolder\<close> again and again; the script properties
  are what one invocation leaves to the next. The result is the final properties, the traces
  joined in order, and whether every invocation returned.\<close>

fun run_scans :: "nat \<Rightarrow> env list \<Rightarrow> script_properties \<Rightarrow> script_properties \<times> event list \<times> bool" where
  "run_scans fuel [] p = (p, [], True)"
| "run_scans fuel (e # es) p =
     (case pollFolder fuel e p of (p1, tr1, c) \<Rightarrow>
        (case run_scans fuel es p1 of (p2, tr2, completed) \<Rightarrow>
           (p2, tr1 @ tr2, c = Returned \<and> completed)))"

subsection \<open>Reading a trace\<close>

fun is_fetch :: "event \<Rightarrow> bool" where
  "is_fetch (UrlFetch rq r) = True"
| "is_fetch ev = False"

fun is_drive_list :: "event \<Rightarrow> bool" where
  "is_drive_list (DriveFilesList q tok r) = True"
| "is_drive_list ev = False"

text \<open>A confirmed hand-off: a fetch that was answered with a code in \<open>[200, 300)\<close>.\<close>

fun ok_event :: "event \<Rightarrow> bool" where
  "ok_event (UrlFetch rq (HttpResponse code body)) = success_code code"
| "ok_event ev = False"

definition failed_fetch :: "event \<Rightarrow> bool" where
  "failed_fetch ev = (is_fetch ev \<and> \<not> ok_event ev)"

text \<open>The file id a fetch carries in its payload.\<close>

fun event_file :: "event \<Rightarrow> string" where
  "event_file (UrlFetch rq r) = p_fileId (rq_payload rq)"
| "event_file ev = []"

text \<open>The file ids handed off with confirmation, in the order of the trace.\<close>

definition forwarded :: "event list \<Rightarrow> string list" where
  "forwarded evs = map event_file (filter ok_event evs)"

text \<open>The durations of the \<open>Utilities.sleep\<close> calls, in order.\<close>

fun sleeps :: "event list \<Rightarrow> nat list" where
  "sleeps [] = []"
| "sleeps (Sleep ms # evs) = ms # sleeps evs"
| "sleeps (ev # evs) = sleeps evs"

text \<open>The files of the pages that Drive returned, in the order of the trace.\<close>

fun listed :: "event list \<Rightarrow> drive_file list" where
  "listed [] = []"
| "listed (DriveFilesList q tok (DrivePage pg) # evs) =
     (case files pg of None \<Rightarrow> [] | Some fs \<Rightarrow> fs) @ listed evs"
| "listed (ev # evs) = listed evs"

text \<open>The queries sent to \<open>Drive.Files.list\<close>, in order.\<close>

fun queries :: "event list \<Rightarrow> string list" where
  "queries [] = []"
| "queries (DriveFilesList q tok r # evs) = q # queries evs"
| "queries (ev # evs) = queries evs"

text \<open>Whether a fetch was answered with success, and the warning logged when it was not.\<close>

definition ok_result :: "fetch_result \<Rightarrow> bool" where
  "ok_result r = (case r of HttpResponse code body \<Rightarrow> success_code code | FetchException msg \<Rightarrow> False)"

definition warn_event :: "nat \<Rightarrow> fetch_result \<Rightarrow> event" where
  "warn_event i r =
     (case r of HttpResponse code body \<Rightarrow> ConsoleWarnResponse code body
              | FetchException msg \<Rightarrow> ConsoleWarnError i msg)"

text \<open>The events of the \<open>i\<close>-th attempt when it fails: the fetch, the warning, the sleep.\<close>

definition failed_attempt :: "fetch_request \<Rightarrow> nat \<Rightarrow> fetch_result \<Rightarrow> event list" where
  "failed_attempt rq i r = [UrlFetch rq r, warn_event i r, Sleep (500 * i)]"

text \<open>
  What one call of \<open>postToIngress\<close> is to add to the trace when its first, second and
  third fetch are answered with \<open>r1\<close>, \<open>r2\<close> and \<open>r3\<close>: the attempts in order, each failed
  one followed by its warning and its sleep before the next fetch, and nothing after a
  success.
\<close>

definition attempts_trace :: "fetch_request \<Rightarrow> fetch_result \<Rightarrow> fetch_result \<Rightarrow> fetch_result \<Rightarrow> event list" where
  "attempts_trace rq r1 r2 r3 =
     (if ok_result r1 then [UrlFetch rq r1]
      else failed_attempt rq 1 r1 @
        (if ok_result r2 then [UrlFetch rq r2]
         else failed_attempt rq 2 r2 @
           (if ok_result r3 then [UrlFetch rq r3] else failed_attempt rq 3 r3)))"

text \<open>The durations of the sleeps that lie between two attempts: those with a fetch after them.\<close>

fun between_attempts :: "event list \<Rightarrow> nat list" where
  "between_attempts [] = []"
| "between_attempts (Sleep ms # evs) =
     (if \<exists>ev \<in> set evs. is_fetch ev then ms # between_attempts evs else between_attempts evs)"
| "between_attempts (ev # evs) = between_attempts evs"

text \<open>What the events of one \<open>postToIngress\<close> call that starts at attempt \<open>i\<close> look like.\<close>

definition attempt_events :: "fetch_request \<Rightarrow> nat \<Rightarrow> event list \<Rightarrow> bool" where
  "attempt_events rq i evs =
     (length (filter is_fetch evs) \<le> attempts + 1 - i
      \<and> (\<forall>ev \<in> set evs. is_fetch ev \<longrightarrow> (\<exists>r. ev = UrlFetch rq r))
      \<and> (\<forall>ev \<in> set evs. \<not> is_drive_list ev)
      \<and> length (filter ok_event evs) \<le> 1
      \<and> sleeps evs = map (\<lambda>k. 500 * k) [i ..< i + length (filter failed_fetch evs)]
      \<and> ((\<forall>ev \<in> set evs. \<not> ok_event ev) \<longrightarrow> length (filter is_fetch evs) = attempts + 1 - i))"

text \<open>How the state of the scan (seen set, \<open>count\<close>, world) moves while the events \<open>evs\<close>
  are added to the trace.\<close>

definition scan_step :: "js_set \<times> nat \<times> world \<Rightarrow> js_set \<times> nat \<times> world \<Rightarrow> event list \<Rightarrow> bool" where
  "scan_step st st' evs =
     (case st of (seen, cnt, w) \<Rightarrow> case st' of (seen', cnt', w') \<Rightarrow>
        props w' = props w \<and> trace w' = trace w @ evs
        \<and> seen' = seen @ forwarded evs \<and> cnt' = cnt + length (forwarded evs)
        \<and> distinct (forwarded evs) \<and> set (forwarded evs) \<inter> set seen = {}
        \<and> (\<forall>ev \<in> set evs. is_fetch ev \<longrightarrow> event_file ev \<notin> set seen)
        \<and> (\<forall>f \<in> set (listed evs). f_id f \<in> set seen
               \<or> (\<exists>ev \<in> set evs. is_fetch ev \<and> event_file ev = f_id f)))"

subsection \<open>A concrete inbox\<close>

text \<open>The setup of the README: a folder, the Ingress endpoint, a key and a look-back of five
  minutes, with one scanned receipt in the folder. The trigger fires every minute.\<close>

definition inbox_props :: script_properties where
  "inbox_props =
     \<lparr>FOLDER_ID = Some ''FOLDER'', INGRESS_URL = Some ''https://ingress.example/'',
      API_KEY = Some ''KEY'', LOOKBACK_MINUTES = Some ''5'', LAST_RUN_ISO = None,
      SEEN_IDS_JSON = None\<rparr>"

definition scan_file :: drive_file where
  "scan_file = \<lparr>f_id = ''F1'', f_name = ''scan.pdf'', f_mimeType = ''application/pdf'',
                 f_createdTime = ''2025-09-12T03:00:00.000Z''\<rparr>"

text \<open>Drive shows the receipt on a single page.\<close>

definition single_page :: "string \<Rightarrow> string option \<Rightarrow> drive_result" where
  "single_page q tok = DrivePage \<lparr>files = Some [scan_file], nextPageToken = None\<rparr>"

text \<open>Drive shows the receipt on a first page and fails when the second page is asked for.\<close>

definition second_page_fails :: "string \<Rightarrow> string option \<Rightarrow> drive_result" where
  "second_page_fails q tok =
     (if tok = None then DrivePage \<lparr>files = Some [scan_file], nextPageToken = Some ''page2''\<rparr>
      else DriveException ''Internal Error'')"

definition ingress_up :: "nat \<Rightarrow> fetch_request \<Rightarrow> fetch_result" where
  "ingress_up n rq = HttpResponse 200 ''ok''"

definition ingress_down :: "nat \<Rightarrow> fetch_request \<Rightarrow> fetch_result" where
  "ingress_down n rq = (if n = 1 then FetchException ''Timeout'' else HttpResponse 503 ''unavailable'')"

text \<open>What \<open>pollFolder\<close> posts for the receipt, and the world before any call.\<close>

definition scan_payload :: payload where
  "scan_payload = \<lparr>p_fileId = ''F1'', p_name = ''scan.pdf'', p_mimeType = ''application/pdf'',
                    p_createdTime = ''2025-09-12T03:00:00.000Z'', p_folderId = ''FOLDER''\<rparr>"

definition fresh_world :: world where
  "fresh_world = \<lparr>props = inbox_props, fetches = 0, trace = []\<rparr>"

text \<open>The scan that starts \<open>k\<close> minutes after 2025-09-12T03:00:00Z.\<close>

definition scan_at :: "int \<Rightarrow> (string \<Rightarrow> string option \<Rightarrow> drive_result) \<Rightarrow> (nat \<Rightarrow> fetch_request \<Rightarrow> fetch_result) \<Rightarrow> env" where
  "scan_at k d n = \<lparr>now = 1757646000000 + k * 60000, drive = d, net = n\<rparr>"

text \<open>A cache at capacity: 500 ids, \<open>ID000\<close> the oldest, \<open>ID499\<close> the newest, as an
  earlier invocation stored them.\<close>

definition full_cache :: "string list" where
  "full_cache = map (\<lambda>k. ''ID'' @ digits 3 k) [0 .. 499]"

definition full_props :: script_properties where
  "full_props = inbox_props\<lparr>SEEN_IDS_JSON := Some full_cache\<rparr>"

definition six_scans :: "env list" where
  "six_scans = map (\<lambda>k. scan_at k single_page ingress_up) [0, 1, 2, 3, 4, 5]"

section \<open>The monthly ledger and the validator\<close>

text \<open>
  Of the Sheets writer and the validator the sources hold the README only: the sheet
  layout, the message contracts and the footer formula. The footer formula is taken from
  there; what the writer and the validator do is modelled from the spec, and each such
  definition says so. Amounts are doubles in the sheet and exact rationals here.
\<close>

subsection \<open>Sheet rows and the MONTH TOTAL formula (README, ``Sheets Format'')\<close>

datatype status = OK | NEEDS_REVIEW

text \<open>The columns of a row that the writer and the footer read; the sheet has 16.\<close>

record sheet_row =
  col_date :: string
  col_vendor :: string
  col_item :: string
  col_line_total :: rat
  col_total :: rat
  col_image_hash :: string
  col_status :: status
  col_notes :: "string list"

text \<open>
  The formula in the total column of the footer row:
  \<^verbatim>\<open>=IFERROR(SUM(QUERY(UNIQUE(FILTER({M2:M, I2:I}, N2:N<>"NEEDS REVIEW")),
      "select sum(Col2) where Col1 <> ''", 0)), 0)\<close>
  with \<open>I = total\<close>, \<open>M = image_hash\<close>, \<open>N = status\<close>. \<open>FILTER\<close> keeps the pairs
  (image_hash, total) of the rows whose status is not \<open>NEEDS REVIEW\<close>, \<open>UNIQUE\<close> keeps the
  first of equal pairs, the query sums the totals of the pairs with a hash, and \<open>IFERROR\<close>
  gives 0 when nothing is left, as the empty sum does.
\<close>

definition FILTER_not_review :: "sheet_row list \<Rightarrow> (string \<times> rat) list" where
  "FILTER_not_review rs =
     map (\<lambda>r. (col_image_hash r, col_total r)) (filter (\<lambda>r. col_status r \<noteq> NEEDS_REVIEW) rs)"

definition UNIQUE :: "'a list \<Rightarrow> 'a list" where
  "UNIQUE xs = rev (remdups (rev xs))"

definition QUERY_sum :: "(string \<times> rat) list \<Rightarrow> rat" where
  "QUERY_sum ps = sum_list (map snd (filter (\<lambda>p. fst p \<noteq> []) ps))"

definition MONTH_TOTAL :: "sheet_row list \<Rightarrow> rat" where
  "MONTH_TOTAL rs = QUERY_sum (UNIQUE (FILTER_not_review rs))"

text \<open>
  Follows the spec's words: ``the sum of \<open>total\<close> over the distinct content identities
  currently present with status OK in that ledger''. A content identity is a digest, so an
  empty cell is none.
\<close>

definition ok_identities :: "sheet_row list \<Rightarrow> string list" where
  "ok_identities rs =
     remdups (map col_image_hash (filter (\<lambda>r. col_status r = OK \<and> col_image_hash r \<noteq> []) rs))"

definition identity_total :: "sheet_row list \<Rightarrow> string \<Rightarrow> rat" where
  "identity_total rs h =
     (case find (\<lambda>r. col_image_hash r = h \<and> col_status r = OK) rs of
        None \<Rightarrow> 0 | Some r \<Rightarrow> col_total r)"

definition spec_aggregate :: "sheet_row list \<Rightarrow> rat" where
  "spec_aggregate rs = sum_list (map (identity_total rs) (ok_identities rs))"

text \<open>Rows with status OK that bear the same content identity show the same total.\<close>

definition same_total_per_identity :: "sheet_row list \<Rightarrow> bool" where
  "same_total_per_identity rs =
     (\<forall>r \<in> set rs. \<forall>r' \<in> set rs.
        col_status r = OK \<and> col_status r' = OK \<and> col_image_hash r = col_image_hash r'
          \<longrightarrow> col_total r = col_total r')"

subsection \<open>Validation outcomes\<close>

text \<open>A row as the validator renders it (the \<open>rows\<close> of the \<open>receipts.valid\<close> and
  \<open>receipts.review\<close> messages); status and notes travel beside the rows.\<close>

record rendered_row =
  rr_date :: string
  rr_vendor :: string
  rr_item :: string
  rr_line_total :: rat
  rr_total :: rat
  rr_image_hash :: string

datatype dedupe_key = ByHash string | ByFields string string int

text \<open>The outcome of a validation that is not a duplicate. The normalized record, which the
  writer does not read, is left out.\<close>

record validation =
  v_identity :: string
  v_month_key :: string
  v_rows :: "rendered_row list"
  v_notes :: "string list"
  v_status :: status

datatype outcome = Accepted validation | Duplicate dedupe_key

text \<open>
  Modelled from the spec: what row rendering promises to the writer (4.5, step 5): every
  row repeats the shared fields and carries the shared content identity.
\<close>

definition well_rendered :: "outcome \<Rightarrow> bool" where
  "well_rendered oc =
     (case oc of
        Duplicate k \<Rightarrow> True
      | Accepted v \<Rightarrow>
          (\<forall>r \<in> set (v_rows v). rr_image_hash r = v_identity v)
          \<and> (\<forall>r \<in> set (v_rows v). \<forall>r' \<in> set (v_rows v). rr_total r = rr_total r'))"

subsection \<open>The ledger writer\<close>

record ledger =
  header :: "string list"
  rows :: "sheet_row list"
  aggregate :: "rat option"

text \<open>One ledger per month key \<open>YYYY-MM\<close>.\<close>

type_synonym ledgers = "string \<rightharpoonup> ledger"

definition sheet_header :: "string list" where
  "sheet_header =
     [''date'', ''vendor'', ''item'', ''qty'', ''unit_price'', ''line_total'', ''subtotal'', ''tax'',
      ''total'', ''currency'', ''payment_method'', ''receipt_id'', ''image_hash'', ''status'',
      ''notes'', ''file_link'']"

definition to_sheet_row :: "status \<Rightarrow> string list \<Rightarrow> rendered_row \<Rightarrow> sheet_row" where
  "to_sheet_row st notes r =
     \<lparr>col_date = rr_date r, col_vendor = rr_vendor r, col_item = rr_item r,
      col_line_total = rr_line_total r, col_total = rr_total r,
      col_image_hash = rr_image_hash r, col_status = st, col_notes = notes\<rparr>"

definition bears_identity :: "string \<Rightarrow> sheet_row list \<Rightarrow> bool" where
  "bears_identity h rs = (\<exists>r \<in> set rs. col_image_hash r = h)"

text \<open>
  Modelled from the spec: the Sheets writer (\<open>sheets_writer\<close>) is not among the sources.
  Spec 4.6: ``given a Validation Outcome with rows, resolve the target monthly ledger
  (create with header if absent), and append only if no row bearing this content identity
  already exists in that ledger. [...] After every successful append, recompute the
  aggregate row [...]; overwrite (not increment) the existing aggregate row, or create it if
  absent, and keep it positioned as the last row.'' A Duplicate verdict causes no write. The
  aggregate row holds the README's footer formula, evaluated on the rows above it.
\<close>

definition ledger_write :: "outcome \<Rightarrow> ledgers \<Rightarrow> ledgers" where
  "ledger_write oc s =
     (case oc of
        Duplicate k \<Rightarrow> s
      | Accepted v \<Rightarrow>
          (let l = (case s (v_month_key v) of
                      None \<Rightarrow> \<lparr>header = sheet_header, rows = [], aggregate = None\<rparr>
                    | Some l \<Rightarrow> l)
           in if bears_identity (v_identity v) (rows l) then s(v_month_key v \<mapsto> l)
              else
                (let appended = rows l @ map (to_sheet_row (v_status v) (v_notes v)) (v_rows v)
                 in s(v_month_key v \<mapsto> l\<lparr>rows := appended, aggregate := Some (MONTH_TOTAL appended)\<rparr>))))"

text \<open>The deliveries a writer receives, applied in order.\<close>

definition deliver_all :: "outcome list \<Rightarrow> ledgers \<Rightarrow> ledgers" where
  "deliver_all ocs s = foldl (\<lambda>s oc. ledger_write oc s) s ocs"

text \<open>The number of rows of a month's ledger that bear a content identity.\<close>

definition row_count :: "ledgers \<Rightarrow> string \<Rightarrow> string \<Rightarrow> nat" where
  "row_count s month h =
     (case s month of None \<Rightarrow> 0 | Some l \<Rightarrow> length (filter (\<lambda>r. col_image_hash r = h) (rows l)))"

subsection \<open>The validator\<close>

record line_item =
  description :: string
  quantity :: rat
  unit_price :: rat
  line_total :: rat

record structured_record =
  vendor :: string
  purchase_date :: string
  currency :: string
  subtotal :: rat
  tax :: rat
  total :: rat
  payment_method :: "string option"
  items :: "line_item list"
  receipt_id :: "string option"
  source_image_hash :: string

text \<open>
  What the validator is configured with and what it finds in its marker store. The schema
  check (which fields are required, and the note for each), the normalization and the
  derivation of the month key are not described field by field in the spec; they are
  parameters.
\<close>

record validator_env =
  schema_check :: "structured_record \<Rightarrow> string list"
  normalize :: "structured_record \<Rightarrow> structured_record"
  month_key_of :: "string \<Rightarrow> string"
  TOTALS_EPSILON :: rat
  committed :: "dedupe_key list"

definition items_sum :: "structured_record \<Rightarrow> rat" where
  "items_sum r = sum_list (map line_total (items r))"

definition mismatch_note :: string where
  "mismatch_note = ''sum(items)!=total''"

text \<open>
  Modelled from the spec: the validator is not among the sources. Spec 4.5, step 3:
  ``compute \<open>sum(line_total over items)\<close> and compare against reported subtotal/total within an
  absolute tolerance (epsilon). Mismatch beyond tolerance produces a note and forces status
  NEEDS_REVIEW but does not block the write.'' The comparison is with \<open>total\<close>, as in the
  spec's testable property and the README's note \<open>sum(items)!=total\<close>.
\<close>

definition reconcile :: "rat \<Rightarrow> structured_record \<Rightarrow> string list" where
  "reconcile eps r = (if \<bar>items_sum r - total r\<bar> \<le> eps then [] else [mismatch_note])"

text \<open>
  Modelled from the spec: the dedupe key (3): ``content identity when present and
  trustworthy; otherwise a composite of normalized vendor + purchase date + total (rounded
  to currency precision)'': the total in hundredths, rounded half up.
\<close>

definition dedupe_key_of :: "structured_record \<Rightarrow> dedupe_key" where
  "dedupe_key_of r =
     (if source_image_hash r \<noteq> [] then ByHash (source_image_hash r)
      else ByFields (vendor r) (purchase_date r) \<lfloor>total r * 100 + 1 / 2\<rfloor>)"

text \<open>
  Modelled from the spec: row rendering (4.5, step 5): ``one ledger row per line item
  (repeating shared header fields), each row carrying the shared content identity''.
\<close>

definition render_rows :: "structured_record \<Rightarrow> rendered_row list" where
  "render_rows r =
     map (\<lambda>it. \<lparr>rr_date = purchase_date r, rr_vendor = vendor r, rr_item = description it,
                 rr_line_total = line_total it, rr_total = total r,
                 rr_image_hash = source_image_hash r\<rparr>) (items r)"

text \<open>
  Modelled from the spec: the validator's steps 1 to 6 (4.5) for a record that is not null.
  Missing or invalid fields and a mismatch of the totals become notes; any note downgrades
  the status to NEEDS_REVIEW (7: ``Validation errors (missing/malformed fields,
  reconciliation mismatch): never fatal; downgrade to NEEDS_REVIEW with an explanatory
  note''); a record whose dedupe key is already committed gets the Duplicate verdict, with
  no rows.
\<close>

definition validator :: "validator_env \<Rightarrow> structured_record \<Rightarrow> outcome" where
  "validator ve r =
     (let n = normalize ve r;
          notes = schema_check ve r @ reconcile (TOTALS_EPSILON ve) n;
          key = dedupe_key_of n
      in if key \<in> set (committed ve) then Duplicate key
         else Accepted \<lparr>v_identity = source_image_hash n,
                        v_month_key = month_key_of ve (purchase_date n),
                        v_rows = render_rows n,
                        v_notes = notes,
                        v_status = (if notes = [] then OK else NEEDS_REVIEW)\<rparr>)"

definition outcome_status :: "outcome \<Rightarrow> status option" where
  "outcome_status oc = (case oc of Duplicate k \<Rightarrow> None | Accepted v \<Rightarrow> Some (v_status v))"

definition outcome_notes :: "outcome \<Rightarrow> string list" where
  "outcome_notes oc = (case oc of Duplicate k \<Rightarrow> [] | Accepted v \<Rightarrow> v_notes v)"

definition outcome_rows :: "outcome \<Rightarrow> rendered_row list" where
  "outcome_rows oc = (case oc of Duplicate k \<Rightarrow> [] | Accepted v \<Rightarrow> v_rows v)"

subsection \<open>A concrete receipt\<close>

text \<open>A receipt of two lines that add up to its total of 23.00, and the epsilon of
  \<open>.env.validator.yaml\<close>.\<close>

definition milk_receipt :: structured_record where
  "milk_receipt =
     \<lparr>vendor = ''7-Eleven'', purchase_date = ''2025-09-10'', currency = ''MYR'',
      subtotal = 23, tax = 0, total = 23, payment_method = Some ''Card'',
      items = [\<lparr>description = ''Milk 1L'', quantity = 1, unit_price = 65 / 10, line_total = 65 / 10\<rparr>,
               \<lparr>description = ''Bread'', quantity = 3, unit_price = 55 / 10, line_total = 165 / 10\<rparr>],
      receipt_id = None, source_image_hash = ''sha256:h1''\<rparr>"

definition plain_validator :: validator_env where
  "plain_validator =
     \<lparr>schema_check = (\<lambda>r. if vendor r = [] then [''vendor missing''] else []),
      normalize = (\<lambda>r. r),
      month_key_of = take 7,
      TOTALS_EPSILON = 5 / 100,
      committed = []\<rparr>"

text \<open>An outcome for content identity \<open>h1\<close> with total 23.00 and status OK, and one for
  \<open>h2\<close> that needs review.\<close>

definition h1_ok :: outcome where
  "h1_ok = Accepted
     \<lparr>v_identity = ''sha256:h1'', v_month_key = ''2025-09'',
      v_rows = [\<lparr>rr_date = ''2025-09-10'', rr_vendor = ''7-Eleven'', rr_item = ''Milk 1L'',
                  rr_line_total = 65 / 10, rr_total = 23, rr_image_hash = ''sha256:h1''\<rparr>,
                \<lparr>rr_date = ''2025-09-10'', rr_vendor = ''7-Eleven'', rr_item = ''Bread'',
                  rr_line_total = 165 / 10, rr_total = 23, rr_image_hash = ''sha256:h1''\<rparr>],
      v_notes = [], v_status = OK\<rparr>"

definition h2_review :: outcome where
  "h2_review = Accepted
     \<lparr>v_identity = ''sha256:h2'', v_month_key = ''2025-09'',
      v_rows = [\<lparr>rr_date = ''2025-09-11'', rr_vendor = '''', rr_item = ''Rice 5kg'',
                  rr_line_total = 30, rr_total = 32, rr_image_hash = ''sha256:h2''\<rparr>],
      v_notes = [''vendor missing'', ''sum(items)!=total''], v_status = NEEDS_REVIEW\<rparr>"

section \<open>Properties\<close>

subsection \<open>Auxiliary facts about the poller\<close>

lemma sleeps_append: "sleeps (xs @ ys) = sleeps xs @ sleeps ys"
  by (induction xs rule: sleeps.induct) auto

lemma postToIngress_loop_shape:
  "\<exists>evs. postToIngress_loop e rq i w =
           (w\<lparr>fetches := fetches w + length (filter is_fetch evs), trace := trace w @ evs\<rparr>,
            \<exists>ev \<in> set evs. ok_event ev)
         \<and> attempt_events rq i evs"
proof (induction e rq i w rule: postToIngress_loop.induct)
  case (1 e rq i w)
  show ?case
  proof (cases "i \<le> attempts")
    case False
    then have "postToIngress_loop e rq i w = (w, False)"
      by (simp add: postToIngress_loop.simps)
    moreover have "attempt_events rq i []"
      using False by (simp add: attempt_events_def)
    ultimately show ?thesis
      by (intro exI [of _ "[]"]) simp
  next
    case le: True
    define r where "r = net e (fetches w) rq"
    define w1 where "w1 = w\<lparr>fetches := Suc (fetches w), trace := trace w @ [UrlFetch rq r]\<rparr>"
    show ?thesis
    proof (cases "ok_event (UrlFetch rq r)")
      case True
      then obtain code body where r: "r = HttpResponse code body" and ok: "success_code code"
        by (cases r) auto
      have "postToIngress_loop e rq i w = (w1, True)"
        using le r ok unfolding w1_def r_def
        by (subst postToIngress_loop.simps) (simp add: Let_def)
      moreover have "attempt_events rq i [UrlFetch rq r]"
        using le r ok by (simp add: attempt_events_def failed_fetch_def)
      ultimately show ?thesis
        using True by (intro exI [of _ "[UrlFetch rq r]"]) (simp add: w1_def)
    next
      case False
      define warn where "warn = (case r of HttpResponse code body \<Rightarrow> ConsoleWarnResponse code body
                                  | FetchException msg \<Rightarrow> ConsoleWarnError i msg)"
      define w2 where "w2 = w1\<lparr>trace := trace w1 @ [warn, Sleep (500 * i)]\<rparr>"
      have step: "postToIngress_loop e rq i w = postToIngress_loop e rq (i + 1) w2"
        using le False unfolding w2_def w1_def warn_def r_def
        by (subst postToIngress_loop.simps) (auto simp: Let_def split: fetch_result.splits)
      have "\<exists>evs. postToIngress_loop e rq (i + 1) w2 =
               (w2\<lparr>fetches := fetches w2 + length (filter is_fetch evs), trace := trace w2 @ evs\<rparr>,
                \<exists>ev \<in> set evs. ok_event ev)
             \<and> attempt_events rq (i + 1) evs"
      proof (cases r)
        case (HttpResponse code body)
        with False have "\<not> success_code code" by simp
        from "1.IH"(1) [OF le r_def w1_def HttpResponse this]
        show ?thesis
          unfolding w2_def warn_def HttpResponse by simp
      next
        case (FetchException msg)
        from "1.IH"(2) [OF le r_def w1_def FetchException]
        show ?thesis
          unfolding w2_def warn_def FetchException by simp
      qed
      then obtain evs where
        res: "postToIngress_loop e rq (i + 1) w2 =
               (w2\<lparr>fetches := fetches w2 + length (filter is_fetch evs), trace := trace w2 @ evs\<rparr>,
                \<exists>ev \<in> set evs. ok_event ev)"
        and shape: "attempt_events rq (i + 1) evs"
        by blast
      have nowarn: "\<not> is_fetch warn" "\<not> ok_event warn" "\<And>xs. sleeps (warn # xs) = sleeps xs"
        by (auto simp: warn_def split: fetch_result.splits)
      let ?all = "[UrlFetch rq r, warn, Sleep (500 * i)] @ evs"
      have "postToIngress_loop e rq i w =
              (w\<lparr>fetches := fetches w + length (filter is_fetch ?all), trace := trace w @ ?all\<rparr>,
               \<exists>ev \<in> set ?all. ok_event ev)"
        unfolding step res using False nowarn by (simp add: w2_def w1_def)
      moreover have "attempt_events rq i ?all"
      proof -
        let ?n = "length (filter failed_fetch evs)"
        from shape have s1: "length (filter is_fetch evs) \<le> attempts + 1 - (i + 1)"
          and s2: "\<forall>ev \<in> set evs. is_fetch ev \<longrightarrow> (\<exists>r. ev = UrlFetch rq r)"
          and s2b: "\<forall>ev \<in> set evs. \<not> is_drive_list ev"
          and s3: "length (filter ok_event evs) \<le> 1"
          and s4: "sleeps evs = map (\<lambda>k. 500 * k) [i + 1 ..< i + 1 + ?n]"
          and s5: "(\<forall>ev \<in> set evs. \<not> ok_event ev) \<longrightarrow> length (filter is_fetch evs) = attempts + 1 - (i + 1)"
          unfolding attempt_events_def by blast+
        have fetch_count: "length (filter is_fetch ?all) = Suc (length (filter is_fetch evs))"
          using nowarn by simp
        have ok_count: "filter ok_event ?all = filter ok_event evs"
          using False nowarn by simp
        have failed_count: "length (filter failed_fetch ?all) = Suc ?n"
          using False nowarn by (simp add: failed_fetch_def)
        have "sleeps ?all = 500 * i # sleeps evs"
          using nowarn by simp
        also have "500 * i # sleeps evs = map (\<lambda>k. 500 * k) [i ..< i + Suc ?n]"
          unfolding s4 by (subst (2) upt_rec) (simp del: upt_Suc)
        finally have sl: "sleeps ?all = map (\<lambda>k. 500 * k) [i ..< i + length (filter failed_fetch ?all)]"
          unfolding failed_count .
        have all_failed: "(\<forall>ev \<in> set ?all. \<not> ok_event ev) \<longrightarrow> length (filter is_fetch ?all) = attempts + 1 - i"
          unfolding fetch_count using s5 le by auto
        have targets: "\<forall>ev \<in> set ?all. is_fetch ev \<longrightarrow> (\<exists>r. ev = UrlFetch rq r)"
          using s2 nowarn by auto
        have nolist: "\<forall>ev \<in> set ?all. \<not> is_drive_list ev"
          using s2b by (auto simp: warn_def split: fetch_result.splits)
        have bound: "length (filter is_fetch ?all) \<le> attempts + 1 - i"
          unfolding fetch_count using s1 le by linarith
        have one_ok: "length (filter ok_event ?all) \<le> 1"
          unfolding ok_count using s3 .
        show ?thesis
          unfolding attempt_events_def using bound targets nolist one_ok sl all_failed by blast
      qed
      ultimately show ?thesis
        by blast
    qed
  qed
qed

lemma forwarded_append: "forwarded (xs @ ys) = forwarded xs @ forwarded ys"
  by (simp add: forwarded_def)

lemma listed_append: "listed (xs @ ys) = listed xs @ listed ys"
  by (induction xs rule: listed.induct) auto

lemma queries_append: "queries (xs @ ys) = queries xs @ queries ys"
  by (induction xs rule: queries.induct) auto

lemma listed_no_drive_list: "\<forall>ev \<in> set evs. \<not> is_drive_list ev \<Longrightarrow> listed evs = []"
  by (induction evs rule: listed.induct) auto

lemma queries_no_drive_list: "\<forall>ev \<in> set evs. \<not> is_drive_list ev \<Longrightarrow> queries evs = []"
  by (induction evs rule: queries.induct) auto

lemma postToIngress_shape:
  "\<exists>evs. postToIngress e url key obj w =
           (w\<lparr>fetches := fetches w + length (filter is_fetch evs), trace := trace w @ evs\<rparr>,
            \<exists>ev \<in> set evs. ok_event ev)
         \<and> attempt_events \<lparr>rq_url = url, rq_api_key = key, rq_payload = obj\<rparr> 1 evs"
  unfolding postToIngress_def by (rule postToIngress_loop_shape)

lemma attempt_events_forwarded:
  assumes "attempt_events rq 1 evs"
  shows "forwarded evs = (if \<exists>ev \<in> set evs. ok_event ev then [p_fileId (rq_payload rq)] else [])"
    and "\<exists>ev \<in> set evs. is_fetch ev"
    and "\<forall>ev \<in> set evs. is_fetch ev \<longrightarrow> event_file ev = p_fileId (rq_payload rq)"
proof -
  from assms have a2: "\<forall>ev \<in> set evs. is_fetch ev \<longrightarrow> (\<exists>r. ev = UrlFetch rq r)"
    and a3: "length (filter ok_event evs) \<le> 1"
    and a5: "(\<forall>ev \<in> set evs. \<not> ok_event ev) \<longrightarrow> length (filter is_fetch evs) = attempts + 1 - 1"
    unfolding attempt_events_def by blast+
  have ok_fetch: "is_fetch ev" if "ok_event ev" for ev
    using that by (cases ev rule: ok_event.cases) auto
  show files: "\<forall>ev \<in> set evs. is_fetch ev \<longrightarrow> event_file ev = p_fileId (rq_payload rq)"
    using a2 by auto
  show "\<exists>ev \<in> set evs. is_fetch ev"
  proof (cases "\<exists>ev \<in> set evs. ok_event ev")
    case True
    then show ?thesis using ok_fetch by blast
  next
    case False
    with a5 have "length (filter is_fetch evs) = 3" by (simp add: attempts_def)
    then have "filter is_fetch evs \<noteq> []" by auto
    then show ?thesis by (simp add: filter_empty_conv)
  qed
  show "forwarded evs = (if \<exists>ev \<in> set evs. ok_event ev then [p_fileId (rq_payload rq)] else [])"
  proof (cases "\<exists>ev \<in> set evs. ok_event ev")
    case False
    then have "filter ok_event evs = []" by (simp add: filter_empty_conv)
    with False show ?thesis by (simp add: forwarded_def)
  next
    case True
    then have "filter ok_event evs \<noteq> []" by (simp add: filter_empty_conv)
    with a3 obtain ev where one: "filter ok_event evs = [ev]"
      by (cases "filter ok_event evs") auto
    then have "ev \<in> set (filter ok_event evs)" by simp
    then have "ev \<in> set evs" "ok_event ev" by auto
    with files ok_fetch have "event_file ev = p_fileId (rq_payload rq)" by blast
    with True one show ?thesis by (simp add: forwarded_def)
  qed
qed

lemma forwarded_fetch: "x \<in> set (forwarded evs) \<Longrightarrow> \<exists>ev \<in> set evs. is_fetch ev \<and> event_file ev = x"
proof -
  assume "x \<in> set (forwarded evs)"
  then obtain ev where "ev \<in> set evs" "ok_event ev" "event_file ev = x"
    by (auto simp: forwarded_def)
  moreover from \<open>ok_event ev\<close> have "is_fetch ev"
    by (cases ev rule: ok_event.cases) auto
  ultimately show ?thesis by blast
qed

lemma scan_step_refl: "scan_step st st []"
  by (cases st) (simp add: scan_step_def forwarded_def)

lemma scan_step_trans:
  assumes "scan_step a b evs1" and "scan_step b c evs2"
  shows "scan_step a c (evs1 @ evs2)"
proof -
  obtain sa ca wa where a: "a = (sa, ca, wa)" by (cases a)
  obtain sb cb wb where b: "b = (sb, cb, wb)" by (cases b)
  obtain sc cc wc where c: "c = (sc, cc, wc)" by (cases c)
  from assms(1) have ab: "props wb = props wa" "trace wb = trace wa @ evs1"
    "sb = sa @ forwarded evs1" "cb = ca + length (forwarded evs1)"
    "distinct (forwarded evs1)" "set (forwarded evs1) \<inter> set sa = {}"
    "\<forall>ev \<in> set evs1. is_fetch ev \<longrightarrow> event_file ev \<notin> set sa"
    "\<forall>f \<in> set (listed evs1). f_id f \<in> set sa \<or> (\<exists>ev \<in> set evs1. is_fetch ev \<and> event_file ev = f_id f)"
    unfolding a b scan_step_def by auto
  from assms(2) have bc: "props wc = props wb" "trace wc = trace wb @ evs2"
    "sc = sb @ forwarded evs2" "cc = cb + length (forwarded evs2)"
    "distinct (forwarded evs2)" "set (forwarded evs2) \<inter> set sb = {}"
    "\<forall>ev \<in> set evs2. is_fetch ev \<longrightarrow> event_file ev \<notin> set sb"
    "\<forall>f \<in> set (listed evs2). f_id f \<in> set sb \<or> (\<exists>ev \<in> set evs2. is_fetch ev \<and> event_file ev = f_id f)"
    unfolding b c scan_step_def by auto
  have 1: "props wc = props wa" "trace wc = trace wa @ evs1 @ evs2"
    "sc = sa @ forwarded (evs1 @ evs2)" "cc = ca + length (forwarded (evs1 @ evs2))"
    using ab bc by (simp_all add: forwarded_append)
  have 2: "distinct (forwarded (evs1 @ evs2))"
    using ab(3,5) bc(5,6) by (auto simp: forwarded_append)
  have 3: "set (forwarded (evs1 @ evs2)) \<inter> set sa = {}"
    using ab(3,6) bc(6) by (auto simp: forwarded_append)
  have 4: "\<forall>ev \<in> set (evs1 @ evs2). is_fetch ev \<longrightarrow> event_file ev \<notin> set sa"
    using ab(3,7) bc(7) by auto
  have 5: "\<forall>f \<in> set (listed (evs1 @ evs2)). f_id f \<in> set sa
             \<or> (\<exists>ev \<in> set (evs1 @ evs2). is_fetch ev \<and> event_file ev = f_id f)"
  proof
    fix f assume "f \<in> set (listed (evs1 @ evs2))"
    then consider "f \<in> set (listed evs1)" | "f \<in> set (listed evs2)"
      by (auto simp: listed_append)
    then show "f_id f \<in> set sa \<or> (\<exists>ev \<in> set (evs1 @ evs2). is_fetch ev \<and> event_file ev = f_id f)"
    proof cases
      case 1
      with ab(8) show ?thesis by auto
    next
      case 2
      with bc(8) consider "f_id f \<in> set sa" | "f_id f \<in> set (forwarded evs1)"
        | "\<exists>ev \<in> set evs2. is_fetch ev \<and> event_file ev = f_id f"
        unfolding ab(3) by auto
      then show ?thesis
      proof cases
        case 2
        from forwarded_fetch [OF this] show ?thesis by auto
      qed auto
    qed
  qed
  show ?thesis
    unfolding a c scan_step_def using 1 2 3 4 5 by simp
qed

lemma forEach_body_step:
  "\<exists>evs. scan_step st (forEach_body e cfg st f) evs \<and> (\<forall>ev \<in> set evs. \<not> is_drive_list ev)
       \<and> (f_id f \<in> set (fst st) \<or> (\<exists>ev \<in> set evs. is_fetch ev \<and> event_file ev = f_id f))"
proof -
  obtain seen cnt w where st: "st = (seen, cnt, w)" by (cases st)
  show ?thesis
  proof (cases "f_id f \<in> set seen")
    case True
    then have "forEach_body e cfg st f = st"
      by (simp add: forEach_body_def st set_has_def)
    with True show ?thesis
      by (intro exI [of _ "[]"]) (simp add: scan_step_refl st)
  next
    case False
    define obj where "obj = \<lparr>p_fileId = f_id f, p_name = f_name f, p_mimeType = f_mimeType f,
                      p_createdTime = f_createdTime f, p_folderId = folderId cfg\<rparr>"
    define rq where "rq = \<lparr>rq_url = endpoint cfg, rq_api_key = apiKey cfg, rq_payload = obj\<rparr>"
    from postToIngress_shape [of e "endpoint cfg" "apiKey cfg" obj w]
    obtain evs where
      res: "postToIngress e (endpoint cfg) (apiKey cfg) obj w =
           (w\<lparr>fetches := fetches w + length (filter is_fetch evs), trace := trace w @ evs\<rparr>,
            \<exists>ev \<in> set evs. ok_event ev)"
      and shape: "attempt_events rq 1 evs"
      unfolding rq_def by blast
    have pfile: "p_fileId (rq_payload rq) = f_id f"
      by (simp add: rq_def obj_def)
    note fw = attempt_events_forwarded [OF shape, unfolded pfile]
    from shape have nolist: "\<forall>ev \<in> set evs. \<not> is_drive_list ev"
      unfolding attempt_events_def by blast
    have body: "forEach_body e cfg (seen, cnt, w) f =
      (if \<exists>ev \<in> set evs. ok_event ev
       then (seen @ [f_id f], cnt + 1, w\<lparr>fetches := fetches w + length (filter is_fetch evs), trace := trace w @ evs\<rparr>)
       else (seen, cnt, w\<lparr>fetches := fetches w + length (filter is_fetch evs), trace := trace w @ evs\<rparr>))"
      using False res unfolding forEach_body_def obj_def [symmetric]
      by (simp add: set_has_def set_add_def Let_def)
    have "scan_step st (forEach_body e cfg st f) evs"
      unfolding st body scan_step_def
      using False fw(1,3) nolist by (simp add: listed_no_drive_list)
    with nolist fw(2,3) show ?thesis by blast
  qed
qed

lemma forEach_steps:
  "\<exists>evs. scan_step st (foldl (forEach_body e cfg) st fs) evs \<and> (\<forall>ev \<in> set evs. \<not> is_drive_list ev)
       \<and> (\<forall>f \<in> set fs. f_id f \<in> set (fst st) \<or> (\<exists>ev \<in> set evs. is_fetch ev \<and> event_file ev = f_id f))"
proof (induction fs arbitrary: st)
  case Nil
  show ?case
    by (intro exI [of _ "[]"]) (simp add: scan_step_refl)
next
  case (Cons f fs)
  define st1 where "st1 = forEach_body e cfg st f"
  from forEach_body_step [of st e cfg f] obtain evs1 where
    1: "scan_step st st1 evs1" "\<forall>ev \<in> set evs1. \<not> is_drive_list ev"
       "f_id f \<in> set (fst st) \<or> (\<exists>ev \<in> set evs1. is_fetch ev \<and> event_file ev = f_id f)"
    unfolding st1_def by blast
  from Cons.IH [of st1] obtain evs2 where
    2: "scan_step st1 (foldl (forEach_body e cfg) st1 fs) evs2" "\<forall>ev \<in> set evs2. \<not> is_drive_list ev"
       "\<forall>g \<in> set fs. f_id g \<in> set (fst st1) \<or> (\<exists>ev \<in> set evs2. is_fetch ev \<and> event_file ev = f_id g)"
    by blast
  have seen1: "fst st1 = fst st @ forwarded evs1"
    using 1(1) by (cases st; cases st1) (simp add: scan_step_def)
  have "scan_step st (foldl (forEach_body e cfg) st (f # fs)) (evs1 @ evs2)"
    using scan_step_trans [OF 1(1) 2(1)] by (simp add: st1_def)
  moreover have "\<forall>ev \<in> set (evs1 @ evs2). \<not> is_drive_list ev"
    using 1(2) 2(2) by auto
  moreover have "\<forall>g \<in> set (f # fs). f_id g \<in> set (fst st)
                   \<or> (\<exists>ev \<in> set (evs1 @ evs2). is_fetch ev \<and> event_file ev = f_id g)"
  proof
    fix g assume "g \<in> set (f # fs)"
    then consider "g = f" | "g \<in> set fs" by auto
    then show "f_id g \<in> set (fst st) \<or> (\<exists>ev \<in> set (evs1 @ evs2). is_fetch ev \<and> event_file ev = f_id g)"
    proof cases
      case 1
      with \<open>f_id f \<in> set (fst st) \<or> _\<close> show ?thesis by auto
    next
      case 2
      with \<open>\<forall>g \<in> set fs. _ g\<close> consider "f_id g \<in> set (fst st)" | "f_id g \<in> set (forwarded evs1)"
        | "\<exists>ev \<in> set evs2. is_fetch ev \<and> event_file ev = f_id g"
        unfolding seen1 by auto
      then show ?thesis
      proof cases
        case 2
        from forwarded_fetch [OF this] show ?thesis by auto
      qed auto
    qed
  qed
  ultimately show ?case by blast
qed

lemma page_loop_step:
  assumes "page_loop n e cfg q tok st = (st', c)"
  shows "\<exists>evs. scan_step st st' evs \<and> set (queries evs) \<subseteq> {q}
           \<and> (0 < n \<longrightarrow> evs \<noteq> [] \<and> hd evs = DriveFilesList q tok (drive e q tok))"
  using assms
proof (induction n arbitrary: tok st)
  case 0
  then show ?case
    by (intro exI [of _ "[]"]) (simp add: scan_step_refl)
next
  case (Suc n)
  obtain seen cnt w where st: "st = (seen, cnt, w)" by (cases st)
  define ev0 where "ev0 = DriveFilesList q tok (drive e q tok)"
  define w1 where "w1 = w\<lparr>trace := trace w @ [ev0]\<rparr>"
  show ?case
  proof (cases "drive e q tok")
    case (DriveException msg)
    with Suc.prems have "st' = (seen, cnt, w1)"
      by (simp add: st w1_def ev0_def Let_def)
    moreover have "scan_step st (seen, cnt, w1) [ev0]"
      using DriveException by (simp add: scan_step_def st w1_def ev0_def forwarded_def)
    ultimately show ?thesis
      by (intro exI [of _ "[ev0]"]) (simp add: ev0_def)
  next
    case (DrivePage pg)
    define fs where "fs = (case files pg of None \<Rightarrow> [] | Some fs \<Rightarrow> fs)"
    define st1 where "st1 = foldl (forEach_body e cfg) (seen, cnt, w1) fs"
    from forEach_steps [of "(seen, cnt, w1)" e cfg fs] obtain evs1 where
      1: "scan_step (seen, cnt, w1) st1 evs1" "\<forall>ev \<in> set evs1. \<not> is_drive_list ev"
         "\<forall>f \<in> set fs. f_id f \<in> set seen \<or> (\<exists>ev \<in> set evs1. is_fetch ev \<and> event_file ev = f_id f)"
      unfolding st1_def by auto
    have first: "scan_step st st1 (ev0 # evs1)"
      using 1 DrivePage unfolding st
      by (cases st1)
         (auto simp: scan_step_def w1_def ev0_def forwarded_def listed_no_drive_list fs_def)
    have q1: "queries (ev0 # evs1) = [q]"
      using 1(2) by (simp add: ev0_def queries_no_drive_list)
    show ?thesis
    proof (cases "truthy (nextPageToken pg)")
      case False
      with Suc.prems DrivePage have "st' = st1"
        by (simp add: st st1_def fs_def w1_def ev0_def Let_def)
      with first q1 show ?thesis
        by (intro exI [of _ "ev0 # evs1"]) (simp add: ev0_def)
    next
      case True
      with Suc.prems DrivePage have "page_loop n e cfg q (nextPageToken pg) st1 = (st', c)"
        by (simp add: st st1_def fs_def w1_def ev0_def Let_def)
      from Suc.IH [OF this] obtain evs2 where
        2: "scan_step st1 st' evs2" "set (queries evs2) \<subseteq> {q}"
        by blast
      have "scan_step st st' ((ev0 # evs1) @ evs2)"
        by (rule scan_step_trans [OF first 2(1)])
      moreover have "set (queries ((ev0 # evs1) @ evs2)) \<subseteq> {q}"
        using q1 2(2) by (simp add: queries_append del: append_Cons)
      ultimately show ?thesis
        by (intro exI [of _ "(ev0 # evs1) @ evs2"]) (simp add: ev0_def)
    qed
  qed
qed

lemma set_foldl_set_add: "set (foldl set_add acc arr) = set acc \<union> set arr"
  by (induction arr arbitrary: acc) (auto simp: set_add_def)

lemma distinct_foldl_set_add: "distinct acc \<Longrightarrow> distinct (foldl set_add acc arr)"
  by (induction arr arbitrary: acc) (auto simp: set_add_def)

lemma length_foldl_set_add: "length (foldl set_add acc arr) \<le> length acc + length arr"
proof (induction arr arbitrary: acc)
  case Nil
  show ?case by simp
next
  case (Cons x arr)
  have "length (foldl set_add (set_add acc x) arr) \<le> length (set_add acc x) + length arr"
    by (rule Cons.IH)
  also have "length (set_add acc x) \<le> Suc (length acc)"
    by (simp add: set_add_def)
  finally show ?case by simp
qed

lemma foldl_set_add_distinct: "distinct (acc @ arr) \<Longrightarrow> foldl set_add acc arr = acc @ arr"
  by (induction arr arbitrary: acc) (auto simp: set_add_def)

lemma length_slice_last: "length (slice_last n arr) \<le> n"
  by (simp add: slice_last_def)

lemma slice_last_short: "length arr \<le> n \<Longrightarrow> slice_last n arr = arr"
  by (simp add: slice_last_def)

lemma distinct_slice_last: "distinct arr \<Longrightarrow> distinct (slice_last n arr)"
  by (simp add: slice_last_def)

lemma distinct_loadSeenIds: "distinct (loadSeenIds p)"
  by (simp add: loadSeenIds_def new_Set_def distinct_foldl_set_add)

lemma length_loadSeenIds: "length (loadSeenIds p) \<le> 500"
proof -
  let ?arr = "slice_last 500 (case SEEN_IDS_JSON p of None \<Rightarrow> [] | Some a \<Rightarrow> a)"
  have "length (loadSeenIds p) \<le> length ?arr"
    using length_foldl_set_add [of "[]" ?arr] by (simp add: loadSeenIds_def new_Set_def)
  also have "\<dots> \<le> 500" by (rule length_slice_last)
  finally show ?thesis .
qed

lemma set_loadSeenIds:
  "set (loadSeenIds p) = set (slice_last 500 (case SEEN_IDS_JSON p of None \<Rightarrow> [] | Some a \<Rightarrow> a))"
  by (simp add: loadSeenIds_def new_Set_def set_foldl_set_add)

lemma loadSeenIds_persisted:
  assumes "SEEN_IDS_JSON p = Some ids" and "distinct ids" and "length ids \<le> 500"
  shows "loadSeenIds p = ids"
  using assms by (simp add: loadSeenIds_def new_Set_def slice_last_short foldl_set_add_distinct)

lemma loadSeenIds_watermark: "loadSeenIds (p\<lparr>LAST_RUN_ISO := v\<rparr>) = loadSeenIds p"
  by (simp add: loadSeenIds_def)

lemma forwarded_snoc_log: "forwarded (evs @ [ConsoleLogPosted n s]) = forwarded evs"
  by (simp add: forwarded_def)

lemma computeSinceIso_world:
  assumes "computeSinceIso e lb w = (w1, r)"
  shows "trace w1 = trace w" and "fetches w1 = fetches w"
    and "\<exists>v. props w1 = (props w)\<lparr>LAST_RUN_ISO := v\<rparr>"
  using assms
  by (auto simp: computeSinceIso_def Let_def split: option.splits
           intro: exI [of _ "LAST_RUN_ISO (props w)"])

lemma computeSinceIso_Inr:
  assumes "computeSinceIso e lb w = (w1, Inr sinceIso)"
  shows "\<exists>l nowIso. lb = Some l \<and> toISOString (now e) = Some nowIso
           \<and> toISOString (now e - l * 60 * 1000) = Some sinceIso
           \<and> w1 = w\<lparr>props := (props w)\<lparr>LAST_RUN_ISO := Some nowIso\<rparr>\<rparr>"
  using assms
  by (cases lb) (auto simp: computeSinceIso_def Let_def split: option.splits)

lemma pollFolder_cases:
  assumes "pollFolder fuel e p = (p', tr, c)"
  obtains (config) err where "loadConfig p = Inl err" "p' = p" "tr = []" "c = Threw err"
  | (time) cfg w1 err where "loadConfig p = Inr cfg"
      "computeSinceIso e (lookbackMinutes cfg) \<lparr>props = p, fetches = 0, trace = []\<rparr> = (w1, Inl err)"
      "p' = props w1" "tr = []" "c = Threw err"
  | (scan) cfg w1 sinceIso seen2 cnt w2 where "loadConfig p = Inr cfg"
      "computeSinceIso e (lookbackMinutes cfg) \<lparr>props = p, fetches = 0, trace = []\<rparr> = (w1, Inr sinceIso)"
      "page_loop fuel e cfg (build_query cfg sinceIso) None (loadSeenIds (props w1), 0, w1)
         = ((seen2, cnt, w2), c)"
      "c = Returned \<Longrightarrow> p' = props (persistSeenIds seen2 w2) \<and> tr = trace w2 @ [ConsoleLogPosted cnt sinceIso]"
      "c \<noteq> Returned \<Longrightarrow> p' = props w2 \<and> tr = trace w2"
proof (cases "loadConfig p")
  case (Inl err)
  with assms have "p' = p" "tr = []" "c = Threw err"
    by (simp_all add: pollFolder_def Let_def)
  with Inl show ?thesis by (rule config)
next
  case (Inr cfg)
  obtain w1 r where cs: "computeSinceIso e (lookbackMinutes cfg) \<lparr>props = p, fetches = 0, trace = []\<rparr> = (w1, r)"
    by (cases "computeSinceIso e (lookbackMinutes cfg) \<lparr>props = p, fetches = 0, trace = []\<rparr>")
  show ?thesis
  proof (cases r)
    case (Inl err)
    from computeSinceIso_world(1) [OF cs] have "trace w1 = []" by simp
    with assms Inr cs Inl have "p' = props w1" "tr = []" "c = Threw err"
      by (simp_all add: pollFolder_def Let_def)
    with Inr cs [unfolded Inl] show ?thesis by (rule time)
  next
    case sinceIso: (Inr sinceIso)
    obtain seen2 cnt w2 c' where pl:
      "page_loop fuel e cfg (build_query cfg sinceIso) None (loadSeenIds (props w1), 0, w1)
         = ((seen2, cnt, w2), c')"
      by (cases "page_loop fuel e cfg (build_query cfg sinceIso) None (loadSeenIds (props w1), 0, w1)") auto
    from assms Inr cs sinceIso pl have
      res: "(p', tr, c) = (case c' of
               Returned \<Rightarrow> (props (persistSeenIds seen2 w2), trace (persistSeenIds seen2 w2) @ [ConsoleLogPosted cnt sinceIso], Returned)
             | _ \<Rightarrow> (props w2, trace w2, c'))"
      by (cases c') (auto simp: pollFolder_def Let_def)
    then have c: "c' = c"
      by (cases c') auto
    have tr_persist: "trace (persistSeenIds seen2 w2) = trace w2"
      by (simp add: persistSeenIds_def Let_def)
    from res have 1: "c = Returned \<Longrightarrow> p' = props (persistSeenIds seen2 w2) \<and> tr = trace w2 @ [ConsoleLogPosted cnt sinceIso]"
      unfolding c by (simp add: tr_persist)
    from res have 2: "c \<noteq> Returned \<Longrightarrow> p' = props w2 \<and> tr = trace w2"
      unfolding c by (cases c) auto
    from Inr cs [unfolded sinceIso] pl [unfolded c] 1 2 show ?thesis by (rule scan)
  qed
qed

lemma pollFolder_summary:
  assumes "pollFolder fuel e p = (p', tr, c)"
  shows "distinct (loadSeenIds p @ forwarded tr)"
    and "c = Returned \<Longrightarrow> SEEN_IDS_JSON p' = Some (slice_last 500 (loadSeenIds p @ forwarded tr))"
    and "c \<noteq> Returned \<Longrightarrow> SEEN_IDS_JSON p' = SEEN_IDS_JSON p"
    and "\<forall>ev \<in> set tr. is_fetch ev \<longrightarrow> event_file ev \<notin> set (loadSeenIds p)"
    and "\<forall>f \<in> set (listed tr). f_id f \<in> set (loadSeenIds p)
            \<or> (\<exists>ev \<in> set tr. is_fetch ev \<and> event_file ev = f_id f)"
proof -
  have "distinct (loadSeenIds p @ forwarded tr)
    \<and> (c = Returned \<longrightarrow> SEEN_IDS_JSON p' = Some (slice_last 500 (loadSeenIds p @ forwarded tr)))
    \<and> (c \<noteq> Returned \<longrightarrow> SEEN_IDS_JSON p' = SEEN_IDS_JSON p)
    \<and> (\<forall>ev \<in> set tr. is_fetch ev \<longrightarrow> event_file ev \<notin> set (loadSeenIds p))
    \<and> (\<forall>f \<in> set (listed tr). f_id f \<in> set (loadSeenIds p)
            \<or> (\<exists>ev \<in> set tr. is_fetch ev \<and> event_file ev = f_id f))"
  using assms
  proof (cases rule: pollFolder_cases)
    case (config err)
    then show ?thesis by (simp add: distinct_loadSeenIds forwarded_def)
  next
    case (time cfg w1 err)
    from computeSinceIso_world(3) [OF time(2)] time(3)
    have "SEEN_IDS_JSON p' = SEEN_IDS_JSON p" by auto
    with time show ?thesis by (simp add: distinct_loadSeenIds forwarded_def)
  next
    case (scan cfg w1 sinceIso seen2 cnt w2)
    from computeSinceIso_world [OF scan(2)] obtain v where
      w1: "trace w1 = []" "props w1 = p\<lparr>LAST_RUN_ISO := v\<rparr>"
      by auto
    then have load: "loadSeenIds (props w1) = loadSeenIds p"
      by (simp add: loadSeenIds_watermark)
    from page_loop_step [OF scan(3)] obtain evs where
      "scan_step (loadSeenIds (props w1), 0, w1) (seen2, cnt, w2) evs"
      by blast
    then have st: "props w2 = props w1" "trace w2 = evs" "seen2 = loadSeenIds p @ forwarded evs"
      "distinct (forwarded evs)" "set (forwarded evs) \<inter> set (loadSeenIds p) = {}"
      "\<forall>ev \<in> set evs. is_fetch ev \<longrightarrow> event_file ev \<notin> set (loadSeenIds p)"
      "\<forall>f \<in> set (listed evs). f_id f \<in> set (loadSeenIds p)
            \<or> (\<exists>ev \<in> set evs. is_fetch ev \<and> event_file ev = f_id f)"
      unfolding scan_step_def load using w1(1) by auto
    have dist: "distinct (loadSeenIds p @ forwarded evs)"
      using st(4,5) by (auto simp: distinct_loadSeenIds)
    show ?thesis
    proof (cases "c = Returned")
      case True
      with scan(4) have "p' = props (persistSeenIds seen2 w2)" "tr = evs @ [ConsoleLogPosted cnt sinceIso]"
        by (simp_all add: st(2))
      then show ?thesis
        using True dist st(3,6,7)
        by (auto simp: persistSeenIds_def Let_def forwarded_snoc_log listed_append)
    next
      case False
      with scan(5) have "p' = props w2" "tr = evs"
        by (simp_all add: st(2))
      then show ?thesis
        using False dist st(1,6,7) w1(2) by simp
    qed
  qed
  then show "distinct (loadSeenIds p @ forwarded tr)"
    and "c = Returned \<Longrightarrow> SEEN_IDS_JSON p' = Some (slice_last 500 (loadSeenIds p @ forwarded tr))"
    and "c \<noteq> Returned \<Longrightarrow> SEEN_IDS_JSON p' = SEEN_IDS_JSON p"
    and "\<forall>ev \<in> set tr. is_fetch ev \<longrightarrow> event_file ev \<notin> set (loadSeenIds p)"
    and "\<forall>f \<in> set (listed tr). f_id f \<in> set (loadSeenIds p)
            \<or> (\<exists>ev \<in> set tr. is_fetch ev \<and> event_file ev = f_id f)"
    by blast+
qed

lemma toISOString_valid: "valid_time t \<Longrightarrow> \<exists>s. toISOString t = Some s"
  by (simp add: toISOString_def Let_def)

lemma toISOString_None: "toISOString t = None \<longleftrightarrow> \<not> valid_time t"
  by (simp add: toISOString_def Let_def)

lemma distinct_count_list_le: "distinct xs \<Longrightarrow> count_list xs x \<le> 1"
  by (induction xs) (auto simp: count_list_0_iff)

lemma slice_last_suffix: "suffix (slice_last m xs) xs"
  by (simp add: slice_last_def suffix_drop)

lemma slice_last_mono:
  assumes "suffix a b"
  shows "suffix (slice_last m a) (slice_last m b)"
proof (rule suffix_length_suffix)
  show "suffix (slice_last m a) b"
    using slice_last_suffix [of m a] assms by (rule suffix_order.trans)
  show "suffix (slice_last m b) b"
    by (rule slice_last_suffix)
  from assms have "length a \<le> length b"
    by (rule suffix_length_le)
  then show "length (slice_last m a) \<le> length (slice_last m b)"
    by (simp add: slice_last_def)
qed

lemma slice_last_append_slice: "slice_last m (slice_last m xs @ ys) = slice_last m (xs @ ys)"
  by (cases "length xs \<le> m") (auto simp: slice_last_def add.commute)

lemma windows_append:
  assumes win: "\<forall>k. distinct (take 501 (drop k N))"
    and cache: "set (slice_last 500 N) \<subseteq> set L"
    and new: "distinct n" "set n \<inter> set L = {}"
  shows "distinct (take 501 (drop k (N @ n)))"
proof (cases "length N \<le> k")
  case True
  with new(1) show ?thesis by simp
next
  case False
  let ?D = "drop k N"
  from False have split: "drop k (N @ n) = ?D @ n" by simp
  show ?thesis
  proof (cases "501 \<le> length ?D")
    case True
    then have long: "take 501 (?D @ n) = take 501 ?D" by simp
    show ?thesis unfolding split long using win by blast
  next
    case short: False
    then have "take 501 ?D = ?D" by simp
    with win have dD: "distinct ?D" by metis
    from short have "length N - 500 \<le> k" by simp
    then have "set ?D \<subseteq> set (slice_last 500 N)"
      unfolding slice_last_def by (rule set_drop_subset_set_drop)
    with cache new(2) have "set ?D \<inter> set n = {}" by blast
    with dD new(1) have "distinct (?D @ n)" by simp
    then show ?thesis unfolding split by (rule distinct_take)
  qed
qed

lemma run_scans_invariant:
  assumes "run_scans fuel es p = (p', tr, True)"
    and "suffix (slice_last 500 N) (loadSeenIds p)"
    and "\<forall>k. distinct (take 501 (drop k N))"
  shows "suffix (slice_last 500 (N @ forwarded tr)) (loadSeenIds p')
         \<and> (\<forall>k. distinct (take 501 (drop k (N @ forwarded tr))))"
  using assms
proof (induction es arbitrary: p N tr)
  case Nil
  then show ?case by (simp add: forwarded_def)
next
  case (Cons e es)
  obtain p1 tr1 c1 where r1: "pollFolder fuel e p = (p1, tr1, c1)"
    by (cases "pollFolder fuel e p")
  obtain p2 tr2 ok where r2: "run_scans fuel es p1 = (p2, tr2, ok)"
    by (cases "run_scans fuel es p1")
  from Cons.prems(1) r1 r2 have eq: "p' = p2" "tr = tr1 @ tr2" "c1 = Returned" "ok"
    by auto
  let ?L = "loadSeenIds p" and ?n = "forwarded tr1"
  from pollFolder_summary(1,2) [OF r1] eq(3)
  have dist: "distinct (?L @ ?n)" and stored: "SEEN_IDS_JSON p1 = Some (slice_last 500 (?L @ ?n))"
    by blast+
  then have load1: "loadSeenIds p1 = slice_last 500 (?L @ ?n)"
    by (intro loadSeenIds_persisted) (simp_all add: distinct_slice_last length_slice_last)
  have "suffix (slice_last 500 N @ ?n) (?L @ ?n)"
    using Cons.prems(2) by simp
  then have "suffix (slice_last 500 (slice_last 500 N @ ?n)) (slice_last 500 (?L @ ?n))"
    by (rule slice_last_mono)
  then have A: "suffix (slice_last 500 (N @ ?n)) (loadSeenIds p1)"
    by (simp add: slice_last_append_slice load1)
  have B: "\<forall>k. distinct (take 501 (drop k (N @ ?n)))"
  proof
    fix k
    from Cons.prems(2) have "set (slice_last 500 N) \<subseteq> set ?L"
      by (rule set_mono_suffix)
    with Cons.prems(3) show "distinct (take 501 (drop k (N @ ?n)))"
      using dist by (intro windows_append [where L = ?L]) auto
  qed
  from r2 eq(1,4) have "run_scans fuel es p1 = (p', tr2, True)" by simp
  from Cons.IH [OF this A B] show ?case
    by (simp add: eq forwarded_append)
qed

text \<open>Once the page loop has ended by itself, more fuel changes nothing.\<close>

lemma page_loop_more_fuel:
  assumes "page_loop n e cfg q tok st = (st', c)" and "c \<noteq> OutOfFuel"
  shows "page_loop (n + k) e cfg q tok st = (st', c)"
  using assms
proof (induction n arbitrary: tok st)
  case 0
  then show ?case by simp
next
  case (Suc n)
  obtain seen cnt w where st: "st = (seen, cnt, w)" by (cases st)
  show ?case
  proof (cases "drive e q tok")
    case (DriveException msg)
    with Suc.prems show ?thesis by (simp add: st Let_def)
  next
    case (DrivePage pg)
    show ?thesis
    proof (cases "truthy (nextPageToken pg)")
      case False
      with Suc.prems DrivePage show ?thesis by (simp add: st Let_def)
    next
      case True
      with Suc.prems DrivePage Suc.IH show ?thesis by (simp add: st Let_def)
    qed
  qed
qed

lemma pollFolder_more_fuel:
  assumes "pollFolder n e p = (p', tr, c)" and "c \<noteq> OutOfFuel"
  shows "pollFolder (n + k) e p = (p', tr, c)"
  using assms(1)
proof (cases rule: pollFolder_cases)
  case (config err)
  then show ?thesis by (simp add: pollFolder_def)
next
  case (time cfg w1 err)
  from computeSinceIso_world(1) [OF time(2)] have "trace w1 = []" by simp
  with time show ?thesis by (simp add: pollFolder_def)
next
  case (scan cfg w1 sinceIso seen2 cnt w2)
  from page_loop_more_fuel [OF scan(3) assms(2), of k] scan(1,2,4,5)
  show ?thesis
    by (cases "c = Returned") (auto simp: pollFolder_def Let_def persistSeenIds_def split: completion.splits)
qed

text \<open>One call of \<open>postToIngress\<close>, attempt by attempt.\<close>

lemma postToIngress_loop_ok:
  assumes "i \<le> attempts" and "ok_result (net e (fetches w) rq)"
  shows "postToIngress_loop e rq i w =
           (w\<lparr>fetches := Suc (fetches w),
              trace := trace w @ [UrlFetch rq (net e (fetches w) rq)]\<rparr>, True)"
  using assms
  by (subst postToIngress_loop.simps)
     (simp add: Let_def ok_result_def split: fetch_result.splits)

lemma postToIngress_loop_failed:
  assumes "i \<le> attempts" and "\<not> ok_result (net e (fetches w) rq)"
  shows "postToIngress_loop e rq i w =
           postToIngress_loop e rq (Suc i)
             (w\<lparr>fetches := Suc (fetches w),
                trace := trace w @ failed_attempt rq i (net e (fetches w) rq)\<rparr>)"
  using assms
  by (subst postToIngress_loop.simps)
     (simp add: Let_def ok_result_def warn_event_def failed_attempt_def split: fetch_result.splits)

lemma postToIngress_loop_done:
  assumes "attempts < i"
  shows "postToIngress_loop e rq i w = (w, False)"
  using assms by (subst postToIngress_loop.simps) simp

lemma postToIngress_exact:
  fixes e url key obj w
  defines "rq \<equiv> \<lparr>rq_url = url, rq_api_key = key, rq_payload = obj\<rparr>"
  defines "r1 \<equiv> net e (fetches w) rq" and "r2 \<equiv> net e (fetches w + 1) rq"
    and "r3 \<equiv> net e (fetches w + 2) rq"
  shows "postToIngress e url key obj w =
           (w\<lparr>fetches := fetches w + length (filter is_fetch (attempts_trace rq r1 r2 r3)),
              trace := trace w @ attempts_trace rq r1 r2 r3\<rparr>,
            ok_result r1 \<or> ok_result r2 \<or> ok_result r3)"
proof -
  define w1 where "w1 = w\<lparr>fetches := Suc (fetches w), trace := trace w @ failed_attempt rq 1 r1\<rparr>"
  define w2 where "w2 = w1\<lparr>fetches := Suc (fetches w1), trace := trace w1 @ failed_attempt rq (Suc 1) r2\<rparr>"
  define w3 where "w3 = w2\<lparr>fetches := Suc (fetches w2), trace := trace w2 @ failed_attempt rq (Suc (Suc 1)) r3\<rparr>"
  have n0: "net e (fetches w) rq = r1" and n1: "net e (fetches w1) rq = r2"
    and n2: "net e (fetches w2) rq = r3"
    by (simp_all add: w1_def w2_def r1_def r2_def r3_def)
  have le: "1 \<le> attempts" "Suc 1 \<le> attempts" "Suc (Suc 1) \<le> attempts"
    "attempts < Suc (Suc (Suc 1))"
    by (simp_all add: attempts_def)
  have nofetch: "\<not> is_fetch (warn_event i r)" for i r
    by (cases r) (simp_all add: warn_event_def)
  have "postToIngress_loop e rq 1 w =
           (w\<lparr>fetches := fetches w + length (filter is_fetch (attempts_trace rq r1 r2 r3)),
              trace := trace w @ attempts_trace rq r1 r2 r3\<rparr>,
            ok_result r1 \<or> ok_result r2 \<or> ok_result r3)"
  proof (cases "ok_result r1")
    case True
    with postToIngress_loop_ok [OF le(1), of e w rq] show ?thesis
      by (simp add: n0 attempts_trace_def)
  next
    case f1: False
    with postToIngress_loop_failed [OF le(1), of e w rq]
    have s1: "postToIngress_loop e rq 1 w = postToIngress_loop e rq (Suc 1) w1"
      unfolding n0 w1_def by blast
    show ?thesis
    proof (cases "ok_result r2")
      case True
      with postToIngress_loop_ok [OF le(2), of e w1 rq] f1 show ?thesis
        unfolding s1 n1
        by (simp add: attempts_trace_def failed_attempt_def nofetch w1_def)
    next
      case f2: False
      with postToIngress_loop_failed [OF le(2), of e w1 rq]
      have s2: "postToIngress_loop e rq (Suc 1) w1 = postToIngress_loop e rq (Suc (Suc 1)) w2"
        unfolding n1 w2_def by blast
      show ?thesis
      proof (cases "ok_result r3")
        case True
        with postToIngress_loop_ok [OF le(3), of e w2 rq] f1 f2 show ?thesis
          unfolding s1 s2 n2
          by (simp add: attempts_trace_def failed_attempt_def nofetch w1_def w2_def numeral_2_eq_2)
      next
        case f3: False
        with postToIngress_loop_failed [OF le(3), of e w2 rq]
        have s3: "postToIngress_loop e rq (Suc (Suc 1)) w2
                    = postToIngress_loop e rq (Suc (Suc (Suc 1))) w3"
          unfolding n2 w3_def by blast
        from f1 f2 f3 show ?thesis
          unfolding s1 s2 s3 postToIngress_loop_done [OF le(4)]
          by (simp add: attempts_trace_def failed_attempt_def nofetch w1_def w2_def w3_def numeral_2_eq_2 numeral_3_eq_3)
      qed
    qed
  qed
  then show ?thesis
    unfolding postToIngress_def rq_def .
qed

lemma warn_event_simps [simp]:
  "\<not> is_fetch (warn_event i r)" "\<not> ok_event (warn_event i r)"
  "sleeps (warn_event i r # evs) = sleeps evs"
  "between_attempts (warn_event i r # evs) = between_attempts evs"
  by (cases r; simp add: warn_event_def)+

lemma ok_event_fetch [simp]: "ok_event (UrlFetch rq r) = ok_result r"
  by (cases r) (simp_all add: ok_result_def)

lemma new_Set_first_occurrences: "new_Set arr = rev (remdups (rev arr))"
proof (induction arr rule: rev_induct)
  case Nil
  show ?case by (simp add: new_Set_def)
next
  case (snoc x xs)
  then have "foldl set_add [] xs = rev (remdups (rev xs))" by (simp add: new_Set_def)
  then show ?case by (simp add: new_Set_def set_add_def)
qed

lemma digits_roundtrip: "0 \<le> k \<Longrightarrow> k < 1000 \<Longrightarrow> digits_value (digits 3 k) = k"
  by (simp add: numeral_3_eq_3 digits_value_def)

lemma length_full_cache: "length full_cache = 500"
  by (simp add: full_cache_def)

lemma distinct_full_cache: "distinct full_cache"
proof -
  have "inj_on (\<lambda>k. ''ID'' @ digits 3 k) (set [0 .. 499])"
  proof (rule inj_onI)
    fix k k' :: int
    assume k: "k \<in> set [0 .. 499]" and k': "k' \<in> set [0 .. 499]"
      and eq: "''ID'' @ digits 3 k = ''ID'' @ digits 3 k'"
    from eq have "digits_value (digits 3 k) = digits_value (digits 3 k')" by simp
    with k k' show "k = k'" by (simp add: digits_roundtrip)
  qed
  then show ?thesis
    unfolding full_cache_def by (simp add: distinct_map)
qed

lemma full_cache_split: "full_cache = ''ID000'' # map (\<lambda>k. ''ID'' @ digits 3 k) [1 .. 499]"
proof -
  have "[0 .. 499] = (0 :: int) # [1 .. 499]" by (simp add: upto_rec1)
  moreover have "''ID'' @ digits 3 0 = ''ID000''" by code_simp
  ultimately show ?thesis by (simp add: full_cache_def)
qed

lemma new_id_not_cached: "''F1'' \<notin> set full_cache"
  by (auto simp: full_cache_def)

lemma loadConfig_seen: "loadConfig (p\<lparr>SEEN_IDS_JSON := v\<rparr>) = loadConfig p"
  by (simp add: loadConfig_def)

lemma loadSeenIds_full_cache: "loadSeenIds full_props = full_cache"
  by (rule loadSeenIds_persisted [OF _ distinct_full_cache])
     (simp_all add: full_props_def length_full_cache)

lemma pollFolder_full_cache:
  "snd (pollFolder 3 (scan_at 0 single_page ingress_up) full_props)
     = ([DriveFilesList
           (build_query \<lparr>folderId = ''FOLDER'', endpoint = ''https://ingress.example/'',
                          apiKey = ''KEY'', lookbackMinutes = Some 5\<rparr> ''2025-09-12T02:55:00.000Z'')
           None (DrivePage \<lparr>files = Some [scan_file], nextPageToken = None\<rparr>),
         UrlFetch \<lparr>rq_url = ''https://ingress.example/'', rq_api_key = ''KEY'',
                    rq_payload = scan_payload\<rparr> (HttpResponse 200 ''ok''),
         ConsoleLogPosted 1 ''2025-09-12T02:55:00.000Z''],
        Returned)"
proof -
  let ?e = "scan_at 0 single_page ingress_up"
  let ?cfg = "\<lparr>folderId = ''FOLDER'', endpoint = ''https://ingress.example/'', apiKey = ''KEY'',
            lookbackMinutes = Some 5\<rparr>"
  have c: "loadConfig full_props = Inr ?cfg"
  proof -
    have "loadConfig inbox_props = Inr ?cfg" by code_simp
    then show ?thesis by (simp add: full_props_def loadConfig_seen)
  qed
  have t1: "toISOString (now ?e) = Some ''2025-09-12T03:00:00.000Z''" by code_simp
  have t2: "toISOString (now ?e - 5 * 60 * 1000) = Some ''2025-09-12T02:55:00.000Z''" by code_simp
  have cs: "computeSinceIso ?e (Some 5) w
              = (w\<lparr>props := (props w)\<lparr>LAST_RUN_ISO := Some ''2025-09-12T03:00:00.000Z''\<rparr>\<rparr>,
                 Inr ''2025-09-12T02:55:00.000Z'')" for w
    using t1 t2 by (simp add: computeSinceIso_def Let_def)
  have d: "drive ?e = single_page" "net ?e = ingress_up" by (simp_all add: scan_at_def)
  have ls: "loadSeenIds (full_props\<lparr>LAST_RUN_ISO := v\<rparr>) = full_cache" for v
    by (simp add: loadSeenIds_watermark loadSeenIds_full_cache)
  have pi: "postToIngress ?e url key obj w
     = (w\<lparr>fetches := fetches w + 1,
          trace := trace w @ [UrlFetch \<lparr>rq_url = url, rq_api_key = key, rq_payload = obj\<rparr>
                                (HttpResponse 200 ''ok'')]\<rparr>, True)"
    for url key obj w
    by (simp add: postToIngress_exact d ingress_up_def attempts_trace_def ok_result_def success_code_def)
  show ?thesis
    by (simp add: pollFolder_def c cs Let_def ls numeral_3_eq_3 d single_page_def
       scan_file_def scan_payload_def forEach_body_def set_has_def new_id_not_cached truthy_def pi
       set_add_def persistSeenIds_def)
qed

lemma parseInt_no_break_space: "parseInt (CHR 0xA0 # '' 7 minutes'') = Some 7"
  by code_simp

subsection \<open>Claims about the poller\<close>

text \<open>
  C10. When one of the required script properties \<open>FOLDER_ID\<close>, \<open>INGRESS_URL\<close>, \<open>API_KEY\<close>
  is absent, \<open>loadConfig\<close> throws before anything else happens: \<open>pollFolder\<close> ends with the
  error, the script properties are what they were, and the trace of Drive calls, fetches,
  sleeps and log lines is empty.
\<close>

theorem pollFolder_missing_config:
  assumes "FOLDER_ID p = None \<or> INGRESS_URL p = None \<or> API_KEY p = None"
  shows "pollFolder fuel e p = (p, [], Threw MissingProperties)"
  using assms by (auto simp: pollFolder_def loadConfig_def truthy_def Let_def)

theorem pollFolder_missing_config_witness:
  "API_KEY (inbox_props\<lparr>API_KEY := None\<rparr>) = None
   \<and> pollFolder 3 (scan_at 0 single_page ingress_up) (inbox_props\<lparr>API_KEY := None\<rparr>)
       = (inbox_props\<lparr>API_KEY := None\<rparr>, [], Threw MissingProperties)"
proof -
  have h: "API_KEY (inbox_props\<lparr>API_KEY := None\<rparr>) = None" by simp
  then have "FOLDER_ID (inbox_props\<lparr>API_KEY := None\<rparr>) = None
      \<or> INGRESS_URL (inbox_props\<lparr>API_KEY := None\<rparr>) = None
      \<or> API_KEY (inbox_props\<lparr>API_KEY := None\<rparr>) = None" by simp
  from h pollFolder_missing_config [OF this] show ?thesis by simp
qed



text \<open>
  C6. The seen-ID cache holds at most 500 ids and evicts the oldest first, across loading
  and persisting. With \<open>arr\<close> the stored array, oldest id first: \<open>loadSeenIds\<close> gives the
  last 500 entries of \<open>arr\<close> in their stored order, each id at its first occurrence there;
  for an array without repetition that is exactly \<open>arr\<close> without its first
  \<open>length arr - 500\<close> entries. \<open>persistSeenIds\<close> stores the set without its first
  \<open>length seen - 500\<close> entries, so at most 500. After a scan that returned, the stored array
  is the loaded ids followed by the ids handed off in that scan, in the order of the
  hand-offs, without as many of the oldest entries as exceed 500, and no id occurs twice
  in it; for a stored array without repetition it is \<open>arr\<close> followed by the new ids, cut
  to its last 500. A scan that did not return leaves the stored array as it was.
\<close>

theorem seen_cache_bounded_fifo:
  "(let arr = (case SEEN_IDS_JSON p of None \<Rightarrow> [] | Some a \<Rightarrow> a);
        r = pollFolder fuel e p;
        added = forwarded (fst (snd r))
    in loadSeenIds p = rev (remdups (rev (drop (length arr - 500) arr)))
       \<and> length (loadSeenIds p) \<le> 500
       \<and> (distinct arr \<longrightarrow> loadSeenIds p = drop (length arr - 500) arr)
       \<and> SEEN_IDS_JSON (props (persistSeenIds seen w)) = Some (drop (length seen - 500) seen)
       \<and> length (drop (length seen - 500) seen) \<le> 500
       \<and> (snd (snd r) = Returned \<longrightarrow>
            SEEN_IDS_JSON (fst r)
              = Some (drop (length (loadSeenIds p @ added) - 500) (loadSeenIds p @ added))
            \<and> distinct (loadSeenIds p @ added))
       \<and> (snd (snd r) = Returned \<and> distinct arr \<longrightarrow>
            SEEN_IDS_JSON (fst r) = Some (drop (length (arr @ added) - 500) (arr @ added)))
       \<and> (snd (snd r) \<noteq> Returned \<longrightarrow> SEEN_IDS_JSON (fst r) = SEEN_IDS_JSON p))"
proof -
  define arr where "arr = (case SEEN_IDS_JSON p of None \<Rightarrow> [] | Some a \<Rightarrow> a)"
  obtain p' tr c where r: "pollFolder fuel e p = (p', tr, c)"
    by (cases "pollFolder fuel e p")
  define added where "added = forwarded tr"
  have load: "loadSeenIds p = rev (remdups (rev (drop (length arr - 500) arr)))"
    by (simp add: loadSeenIds_def Let_def slice_last_def new_Set_first_occurrences arr_def)
  have load_distinct: "loadSeenIds p = drop (length arr - 500) arr" if "distinct arr"
  proof -
    from that have "distinct (rev (drop (length arr - 500) arr))" by simp
    then show ?thesis unfolding load by (simp add: distinct_remdups_id)
  qed
  have persist: "SEEN_IDS_JSON (props (persistSeenIds seen w)) = Some (drop (length seen - 500) seen)"
    by (simp add: persistSeenIds_def Let_def slice_last_def)
  have dist: "distinct (loadSeenIds p @ added)"
    unfolding added_def by (rule pollFolder_summary(1) [OF r])
  have stored: "SEEN_IDS_JSON p'
      = Some (drop (length (loadSeenIds p @ added) - 500) (loadSeenIds p @ added))"
    if "c = Returned"
    using pollFolder_summary(2) [OF r that] by (simp add: slice_last_def added_def)
  have stored_distinct: "SEEN_IDS_JSON p' = Some (drop (length (arr @ added) - 500) (arr @ added))"
    if "c = Returned" and "distinct arr"
  proof (cases "length arr \<le> 500")
    case True
    with load_distinct [OF that(2)] stored [OF that(1)] show ?thesis by simp
  next
    case False
    then have "length arr + length added - 500 = length added + (length arr - 500)"
      by simp
    then have "drop (length arr + length added - 500) (arr @ added)
        = drop (length added) (drop (length arr - 500) (arr @ added))"
      by (simp only: drop_drop)
    then have "drop (length arr + length added - 500) (arr @ added)
        = drop (length added) (drop (length arr - 500) arr @ added)"
      by simp
    with False load_distinct [OF that(2)] stored [OF that(1)] show ?thesis by simp
  qed
  have kept: "SEEN_IDS_JSON p' = SEEN_IDS_JSON p" if "c \<noteq> Returned"
    by (rule pollFolder_summary(3) [OF r that])
  have "loadSeenIds p = rev (remdups (rev (drop (length arr - 500) arr)))
       \<and> length (loadSeenIds p) \<le> 500
       \<and> (distinct arr \<longrightarrow> loadSeenIds p = drop (length arr - 500) arr)
       \<and> SEEN_IDS_JSON (props (persistSeenIds seen w)) = Some (drop (length seen - 500) seen)
       \<and> length (drop (length seen - 500) seen) \<le> 500
       \<and> (c = Returned \<longrightarrow>
            SEEN_IDS_JSON p'
              = Some (drop (length (loadSeenIds p @ added) - 500) (loadSeenIds p @ added))
            \<and> distinct (loadSeenIds p @ added))
       \<and> (c = Returned \<and> distinct arr \<longrightarrow>
            SEEN_IDS_JSON p' = Some (drop (length (arr @ added) - 500) (arr @ added)))
       \<and> (c \<noteq> Returned \<longrightarrow> SEEN_IDS_JSON p' = SEEN_IDS_JSON p)"
    using load length_loadSeenIds [of p] load_distinct persist dist stored stored_distinct kept
    by simp
  then show ?thesis
    unfolding Let_def r fst_conv snd_conv arr_def added_def .
qed

theorem seen_cache_bounded_fifo_witness:
  "SEEN_IDS_JSON full_props = Some full_cache
   \<and> distinct full_cache \<and> length full_cache = 500 \<and> hd full_cache = ''ID000''
   \<and> snd (snd (pollFolder 3 (scan_at 0 single_page ingress_up) full_props)) = Returned
   \<and> forwarded (fst (snd (pollFolder 3 (scan_at 0 single_page ingress_up) full_props))) = [''F1'']
   \<and> SEEN_IDS_JSON (fst (pollFolder 3 (scan_at 0 single_page ingress_up) full_props))
       = Some (map (\<lambda>k. ''ID'' @ digits 3 k) [1 .. 499] @ [''F1''])
   \<and> length (the (SEEN_IDS_JSON (fst (pollFolder 3 (scan_at 0 single_page ingress_up) full_props)))) = 500
   \<and> ''ID000'' \<notin> set (the (SEEN_IDS_JSON (fst (pollFolder 3 (scan_at 0 single_page ingress_up) full_props))))
   \<and> snd (snd (pollFolder 3 (scan_at 0 second_page_fails ingress_up) inbox_props)) \<noteq> Returned
   \<and> SEEN_IDS_JSON (fst (pollFolder 3 (scan_at 0 second_page_fails ingress_up) inbox_props)) = None"
proof -
  let ?r = "pollFolder 3 (scan_at 0 single_page ingress_up) full_props"
  let ?r' = "pollFolder 3 (scan_at 0 second_page_fails ingress_up) inbox_props"
  let ?rest = "map (\<lambda>k. ''ID'' @ digits 3 k) [1 .. 499]"
  have s: "SEEN_IDS_JSON full_props = Some full_cache" by (simp add: full_props_def)
  have h: "snd (snd ?r) = Returned" by (simp add: pollFolder_full_cache)
  have f: "forwarded (fst (snd ?r)) = [''F1'']"
    by (simp add: pollFolder_full_cache forwarded_def scan_payload_def ok_result_def success_code_def)
  have d: "distinct full_cache" by (rule distinct_full_cache)
  have l: "length full_cache = 500" by (rule length_full_cache)
  from seen_cache_bounded_fifo [where p = full_props and fuel = 3
      and e = "scan_at 0 single_page ingress_up", unfolded Let_def s option.case] h d
  have "SEEN_IDS_JSON (fst ?r)
      = Some (drop (length (full_cache @ forwarded (fst (snd ?r))) - 500)
                (full_cache @ forwarded (fst (snd ?r))))"
    by blast
  then have v: "SEEN_IDS_JSON (fst ?r) = Some (?rest @ [''F1''])"
    unfolding f by (simp add: l) (simp add: full_cache_split)
  from d have n: "''ID000'' \<notin> set (?rest @ [''F1''])"
    by (simp add: full_cache_split)
  have h': "snd (snd ?r') \<noteq> Returned" by code_simp
  have s': "SEEN_IDS_JSON inbox_props = None" by (simp add: inbox_props_def)
  from seen_cache_bounded_fifo [where p = inbox_props and fuel = 3
      and e = "scan_at 0 second_page_fails ingress_up", unfolded Let_def s' option.case] h'
  have k: "SEEN_IDS_JSON (fst ?r') = None"
    by blast
  have hd: "hd full_cache = ''ID000''" by (simp add: full_cache_split)
  have len: "length (?rest @ [''F1'']) = 500" by simp
  from s d l hd h f v n h' k len show ?thesis by simp
qed

text \<open>
  C7, as the code has it. On an invocation whose required properties are set, whose
  look-back property parses to a number \<open>l\<close> of minutes, and whose start time and start
  time minus \<open>l\<close> minutes are valid dates, \<open>computeSinceIso\<close> returns the ISO form of the
  invocation time minus \<open>l * 60 * 1000\<close> milliseconds, and the scan asks Drive, first
  without a page token, with the query
  \<open>'<folder>' in parents and trashed = false and createdTime >= '<since>'\<close>; every later page
  is asked for with the same query.
\<close>

theorem scan_window_query:
  assumes "loadConfig p = Inr cfg" and "lookbackMinutes cfg = Some l"
    and "valid_time (now e)" and "valid_time (now e - l * 60 * 1000)"
  shows "\<exists>sinceIso. toISOString (now e - l * 60 * 1000) = Some sinceIso
           \<and> snd (computeSinceIso e (lookbackMinutes cfg) w) = Inr sinceIso
           \<and> build_query cfg sinceIso
               = quote @ folderId cfg @ quote @ '' in parents and trashed = false and createdTime >= ''
                 @ quote @ sinceIso @ quote
           \<and> fst (snd (pollFolder (Suc fuel) e p)) \<noteq> []
           \<and> hd (fst (snd (pollFolder (Suc fuel) e p)))
               = DriveFilesList (build_query cfg sinceIso) None (drive e (build_query cfg sinceIso) None)
           \<and> set (queries (fst (snd (pollFolder (Suc fuel) e p)))) \<subseteq> {build_query cfg sinceIso}"
proof -
  from toISOString_valid [OF assms(3)] obtain nowIso where nowIso: "toISOString (now e) = Some nowIso"
    by blast
  from toISOString_valid [OF assms(4)] obtain sinceIso where sinceIso: "toISOString (now e - l * 60 * 1000) = Some sinceIso"
    by blast
  have cs: "computeSinceIso e (lookbackMinutes cfg) w
              = (w\<lparr>props := (props w)\<lparr>LAST_RUN_ISO := Some nowIso\<rparr>\<rparr>, Inr sinceIso)" for w
    using nowIso sinceIso assms(2) by (simp add: computeSinceIso_def Let_def)
  let ?q = "build_query cfg sinceIso"
  have q: "?q = quote @ folderId cfg @ quote @ '' in parents and trashed = false and createdTime >= ''
                 @ quote @ sinceIso @ quote"
    by (simp add: build_query_def)
  obtain p' tr c where r: "pollFolder (Suc fuel) e p = (p', tr, c)"
    by (cases "pollFolder (Suc fuel) e p")
  then have "tr \<noteq> [] \<and> hd tr = DriveFilesList ?q None (drive e ?q None) \<and> set (queries tr) \<subseteq> {?q}"
  proof (cases rule: pollFolder_cases)
    case (config err)
    with assms(1) show ?thesis by simp
  next
    case (time cfg' w1 err)
    with assms(1) cs show ?thesis by simp
  next
    case (scan cfg' w1 sinceIso' seen2 cnt w2)
    with assms(1) cs have eq: "cfg' = cfg" "sinceIso' = sinceIso" "trace w1 = []"
      by auto
    from page_loop_step [OF scan(3)] obtain evs where
      evs: "scan_step (loadSeenIds (props w1), 0, w1) (seen2, cnt, w2) evs"
        "set (queries evs) \<subseteq> {?q}" "evs \<noteq> []" "hd evs = DriveFilesList ?q None (drive e ?q None)"
      unfolding eq by auto
    then have tr2: "trace w2 = evs"
      by (simp add: scan_step_def eq)
    show ?thesis
    proof (cases "c = Returned")
      case True
      with scan(4) have "tr = evs @ [ConsoleLogPosted cnt sinceIso']" by (simp add: tr2)
      with evs show ?thesis by (simp add: queries_append)
    next
      case False
      with scan(5) have "tr = evs" by (simp add: tr2)
      with evs show ?thesis by simp
    qed
  qed
  with sinceIso cs q show ?thesis
    unfolding r by simp
qed

theorem scan_window_query_witness:
  "loadConfig inbox_props
     = Inr \<lparr>folderId = ''FOLDER'', endpoint = ''https://ingress.example/'', apiKey = ''KEY'',
            lookbackMinutes = Some 5\<rparr>
   \<and> valid_time (now (scan_at 0 single_page ingress_up))
   \<and> valid_time (now (scan_at 0 single_page ingress_up) - 5 * 60 * 1000)
   \<and> toISOString (now (scan_at 0 single_page ingress_up)) = Some ''2025-09-12T03:00:00.000Z''
   \<and> toISOString (now (scan_at 0 single_page ingress_up) - 5 * 60 * 1000) = Some ''2025-09-12T02:55:00.000Z''
   \<and> set (queries (fst (snd (pollFolder (Suc 2) (scan_at 0 single_page ingress_up) inbox_props))))
       \<subseteq> {quote @ ''FOLDER'' @ quote @ '' in parents and trashed = false and createdTime >= ''
            @ quote @ ''2025-09-12T02:55:00.000Z'' @ quote}"
proof -
  let ?cfg = "\<lparr>folderId = ''FOLDER'', endpoint = ''https://ingress.example/'', apiKey = ''KEY'',
            lookbackMinutes = Some 5\<rparr>"
  let ?e = "scan_at 0 single_page ingress_up"
  have h1: "loadConfig inbox_props = Inr ?cfg" by code_simp
  have h2: "lookbackMinutes ?cfg = Some 5" by simp
  have h3: "valid_time (now ?e)" by code_simp
  have h4: "valid_time (now ?e - 5 * 60 * 1000)" by code_simp
  have t1: "toISOString (now ?e) = Some ''2025-09-12T03:00:00.000Z''" by code_simp
  have t2: "toISOString (now ?e - 5 * 60 * 1000) = Some ''2025-09-12T02:55:00.000Z''" by code_simp
  from scan_window_query [OF h1 h2 h3 h4, of fresh_world 2] t2
  have "set (queries (fst (snd (pollFolder (Suc 2) ?e inbox_props))))
          \<subseteq> {build_query ?cfg ''2025-09-12T02:55:00.000Z''}"
    by auto
  then have "set (queries (fst (snd (pollFolder (Suc 2) ?e inbox_props))))
       \<subseteq> {quote @ ''FOLDER'' @ quote @ '' in parents and trashed = false and createdTime >= ''
            @ quote @ ''2025-09-12T02:55:00.000Z'' @ quote}"
    by (simp add: build_query_def)
  with h1 h3 h4 t1 t2 show ?thesis by blast
qed

text \<open>
  C7, as the claim states it, fails on an invocation that does not get that far. With
  \<open>LOOKBACK_MINUTES\<close> set to \<open>abc\<close>, \<open>parseInt\<close> gives \<open>NaN\<close>, \<open>loadConfig\<close> succeeds,
  \<open>computeSinceIso\<close> writes the watermark and throws a RangeError on the Invalid Date, and
  the invocation ends without any call to Drive: nothing is scanned. With \<open>FOLDER_ID\<close> not
  set, \<open>loadConfig\<close> throws and again no call is made.
\<close>

theorem no_scan_on_unparsable_lookback:
  "parseInt ''abc'' = None
   \<and> loadConfig (inbox_props\<lparr>LOOKBACK_MINUTES := Some ''abc''\<rparr>)
       = Inr \<lparr>folderId = ''FOLDER'', endpoint = ''https://ingress.example/'', apiKey = ''KEY'',
              lookbackMinutes = None\<rparr>
   \<and> valid_time (now (scan_at 0 single_page ingress_up))
   \<and> snd (computeSinceIso (scan_at 0 single_page ingress_up) None fresh_world) = Inl RangeError
   \<and> snd (pollFolder 3 (scan_at 0 single_page ingress_up)
            (inbox_props\<lparr>LOOKBACK_MINUTES := Some ''abc''\<rparr>)) = ([], Threw RangeError)
   \<and> queries (fst (snd (pollFolder 3 (scan_at 0 single_page ingress_up)
            (inbox_props\<lparr>LOOKBACK_MINUTES := Some ''abc''\<rparr>)))) = []
   \<and> snd (pollFolder 3 (scan_at 0 single_page ingress_up) (inbox_props\<lparr>FOLDER_ID := None\<rparr>))
       = ([], Threw MissingProperties)"
  by code_simp
text \<open>
  C8, as the code has it. The watermark \<open>LAST_RUN_ISO\<close> is never read. Whatever value it
  has before an invocation, or none, the calls made (the Drive queries, the fetches and
  their order), the way the invocation ends and every other property afterwards, the
  seen-ID cache among them, are the same. It is written by the invocations that get their
  configuration, on a clock with a valid time: such an invocation leaves the ISO form of
  its start time in the watermark, also when it throws later. An invocation that does not
  get its configuration leaves every property, the watermark among them, as it was.
\<close>

theorem watermark_write_only:
  "fst (snd (pollFolder fuel e (p\<lparr>LAST_RUN_ISO := v\<rparr>))) = fst (snd (pollFolder fuel e p))
   \<and> snd (snd (pollFolder fuel e (p\<lparr>LAST_RUN_ISO := v\<rparr>))) = snd (snd (pollFolder fuel e p))
   \<and> (fst (pollFolder fuel e (p\<lparr>LAST_RUN_ISO := v\<rparr>)))\<lparr>LAST_RUN_ISO := None\<rparr>
       = (fst (pollFolder fuel e p))\<lparr>LAST_RUN_ISO := None\<rparr>
   \<and> (\<not> isl (loadConfig p) \<and> valid_time (now e) \<longrightarrow>
        LAST_RUN_ISO (fst (pollFolder fuel e p)) = toISOString (now e)
        \<and> fst (pollFolder fuel e (p\<lparr>LAST_RUN_ISO := v\<rparr>)) = fst (pollFolder fuel e p))
   \<and> (isl (loadConfig p) \<or> \<not> valid_time (now e) \<longrightarrow> fst (pollFolder fuel e p) = p)"
proof -
  have cfg: "loadConfig (p\<lparr>LAST_RUN_ISO := v\<rparr>) = loadConfig p"
    by (simp add: loadConfig_def)
  have same: "pollFolder fuel e (p\<lparr>LAST_RUN_ISO := v\<rparr>)
      = (case pollFolder fuel e p of (p1, tr1, c1) \<Rightarrow>
           (if isl (loadConfig p) \<or> \<not> valid_time (now e) then p1\<lparr>LAST_RUN_ISO := v\<rparr> else p1, tr1, c1))"
  proof (cases "loadConfig p")
    case (Inl err)
    then show ?thesis by (simp add: pollFolder_def cfg)
  next
    case (Inr c)
    show ?thesis
    proof (cases "toISOString (now e)")
      case None
      then have "\<not> valid_time (now e)" by (simp add: toISOString_None)
      with None Inr show ?thesis
        by (simp add: pollFolder_def cfg computeSinceIso_def Let_def)
    next
      case (Some nowIso)
      then have valid: "valid_time (now e)" using toISOString_None [of "now e"] by simp
      have "computeSinceIso e (lookbackMinutes c) \<lparr>props = p\<lparr>LAST_RUN_ISO := v\<rparr>, fetches = 0, trace = []\<rparr>
              = computeSinceIso e (lookbackMinutes c) \<lparr>props = p, fetches = 0, trace = []\<rparr>"
        using Some by (simp add: computeSinceIso_def Let_def)
      with valid Inr show ?thesis
        by (simp add: pollFolder_def cfg split: prod.splits)
    qed
  qed
  obtain p1 tr1 c1 where r: "pollFolder fuel e p = (p1, tr1, c1)"
    by (cases "pollFolder fuel e p")
  have written: "LAST_RUN_ISO p1 = toISOString (now e)"
    if ok: "\<not> isl (loadConfig p)" "valid_time (now e)"
    using r
  proof (cases rule: pollFolder_cases)
    case (config err)
    with ok show ?thesis by simp
  next
    case (time c w1 err)
    from toISOString_valid [OF ok(2)] obtain nowIso where "toISOString (now e) = Some nowIso"
      by blast
    with time(2,3) show ?thesis
      by (auto simp: computeSinceIso_def Let_def split: option.splits)
  next
    case (scan c w1 sinceIso seen2 cnt w2)
    from computeSinceIso_Inr [OF scan(2)] have w1: "LAST_RUN_ISO (props w1) = toISOString (now e)"
      by auto
    from page_loop_step [OF scan(3)] have "props w2 = props w1"
      by (auto simp: scan_step_def)
    with w1 scan(4,5) show ?thesis
      by (cases "c1 = Returned") (auto simp: persistSeenIds_def Let_def)
  qed
  have unwritten: "p1 = p" if "isl (loadConfig p) \<or> \<not> valid_time (now e)"
  proof (cases "loadConfig p")
    case (Inl err)
    with r show ?thesis by (simp add: pollFolder_def)
  next
    case (Inr c)
    with that have "toISOString (now e) = None" by (simp add: toISOString_None)
    with r Inr show ?thesis by (simp add: pollFolder_def computeSinceIso_def Let_def)
  qed
  show ?thesis
    unfolding same r using written unwritten by auto
qed

theorem watermark_write_only_witness:
  "\<not> isl (loadConfig inbox_props) \<and> valid_time (now (scan_at 0 single_page ingress_up))
   \<and> LAST_RUN_ISO (fst (pollFolder 3 (scan_at 0 single_page ingress_up) inbox_props))
       = Some ''2025-09-12T03:00:00.000Z''
   \<and> pollFolder 3 (scan_at 0 single_page ingress_up) (inbox_props\<lparr>LAST_RUN_ISO := Some ''1999-12-31T23:59:59.000Z''\<rparr>)
       = pollFolder 3 (scan_at 0 single_page ingress_up) inbox_props
   \<and> isl (loadConfig (inbox_props\<lparr>INGRESS_URL := Some []\<rparr>))
   \<and> fst (pollFolder 3 (scan_at 0 single_page ingress_up) (inbox_props\<lparr>INGRESS_URL := Some []\<rparr>))
       = inbox_props\<lparr>INGRESS_URL := Some []\<rparr>"
proof -
  let ?e = "scan_at 0 single_page ingress_up"
  have h1: "\<not> isl (loadConfig inbox_props)" by code_simp
  have h2: "valid_time (now ?e)" by code_simp
  have t: "toISOString (now ?e) = Some ''2025-09-12T03:00:00.000Z''" by code_simp
  have h3: "isl (loadConfig (inbox_props\<lparr>INGRESS_URL := Some []\<rparr>))" by code_simp
  from watermark_write_only [where fuel = 3 and e = ?e and p = inbox_props
      and v = "Some ''1999-12-31T23:59:59.000Z''"] h1 h2 t
  have a: "LAST_RUN_ISO (fst (pollFolder 3 ?e inbox_props)) = Some ''2025-09-12T03:00:00.000Z''
      \<and> pollFolder 3 ?e (inbox_props\<lparr>LAST_RUN_ISO := Some ''1999-12-31T23:59:59.000Z''\<rparr>)
          = pollFolder 3 ?e inbox_props"
    by (simp add: prod_eq_iff)
  from watermark_write_only [where fuel = 3 and e = ?e and p = "inbox_props\<lparr>INGRESS_URL := Some []\<rparr>"
      and v = None] h3
  have b: "fst (pollFolder 3 ?e (inbox_props\<lparr>INGRESS_URL := Some []\<rparr>))
      = inbox_props\<lparr>INGRESS_URL := Some []\<rparr>"
    by blast
  from h1 h2 h3 a b show ?thesis by blast
qed

text \<open>
  C8, as the claim states it, fails in its first part: the watermark is not written on
  every invocation. With \<open>API_KEY\<close> not set, on a clock with a valid time, \<open>loadConfig\<close>
  throws before \<open>computeSinceIso\<close> is reached, and the watermark, not set before, is not set
  afterwards.
\<close>

theorem watermark_not_written_when_misconfigured:
  "valid_time (now (scan_at 0 single_page ingress_up))
   \<and> toISOString (now (scan_at 0 single_page ingress_up)) = Some ''2025-09-12T03:00:00.000Z''
   \<and> LAST_RUN_ISO (inbox_props\<lparr>API_KEY := None\<rparr>) = None
   \<and> snd (pollFolder 3 (scan_at 0 single_page ingress_up) (inbox_props\<lparr>API_KEY := None\<rparr>))
       = ([], Threw MissingProperties)
   \<and> LAST_RUN_ISO (fst (pollFolder 3 (scan_at 0 single_page ingress_up)
                            (inbox_props\<lparr>API_KEY := None\<rparr>))) = None"
  by code_simp

text \<open>
  C4. An id enters the seen-ID cache only through a confirmed hand-off: every id in the
  cache after an invocation was in it before or belongs to a fetch of that invocation that
  was answered with a code in \<open>[200, 300)\<close>. So a file whose forwarding failed, and that was
  not cached before, is not cached afterwards, and when Drive lists it again at the next
  invocation a fetch for it is attempted again.
\<close>

theorem cache_only_on_confirmed_handoff:
  assumes "pollFolder fuel e p = (p1, tr1, c1)"
    and "pollFolder fuel' e' p1 = (p2, tr2, c2)"
  shows "set (loadSeenIds p1) \<subseteq> set (loadSeenIds p) \<union> set (forwarded tr1)
         \<and> (f_id f \<notin> set (loadSeenIds p) \<and> f_id f \<notin> set (forwarded tr1) \<longrightarrow>
              f_id f \<notin> set (loadSeenIds p1)
              \<and> (f \<in> set (listed tr2) \<longrightarrow> (\<exists>ev \<in> set tr2. is_fetch ev \<and> event_file ev = f_id f)))"
proof -
  have sub: "set (loadSeenIds p1) \<subseteq> set (loadSeenIds p) \<union> set (forwarded tr1)"
  proof (cases "c1 = Returned")
    case True
    let ?all = "loadSeenIds p @ forwarded tr1"
    from pollFolder_summary(1,2) [OF assms(1)] True
    have "SEEN_IDS_JSON p1 = Some (slice_last 500 ?all)" "distinct ?all"
      by blast+
    then have "loadSeenIds p1 = slice_last 500 ?all"
      by (intro loadSeenIds_persisted) (simp_all add: distinct_slice_last length_slice_last)
    then show ?thesis
      by (auto simp: slice_last_def dest: in_set_dropD)
  next
    case False
    from pollFolder_summary(3) [OF assms(1) False]
    have "loadSeenIds p1 = loadSeenIds p"
      by (simp add: loadSeenIds_def)
    then show ?thesis by simp
  qed
  moreover have "\<exists>ev \<in> set tr2. is_fetch ev \<and> event_file ev = f_id f"
    if "f_id f \<notin> set (loadSeenIds p1)" "f \<in> set (listed tr2)"
    using pollFolder_summary(5) [OF assms(2)] that by blast
  ultimately show ?thesis by blast
qed

theorem cache_only_on_confirmed_handoff_witness:
  "forwarded (fst (snd (pollFolder 3 (scan_at 0 single_page ingress_down) inbox_props))) = []
   \<and> SEEN_IDS_JSON (fst (pollFolder 3 (scan_at 0 single_page ingress_down) inbox_props)) = Some []
   \<and> scan_file \<in> set (listed (fst (snd (pollFolder 3 (scan_at 1 single_page ingress_up)
                          (fst (pollFolder 3 (scan_at 0 single_page ingress_down) inbox_props))))))
   \<and> (\<exists>ev \<in> set (fst (snd (pollFolder 3 (scan_at 1 single_page ingress_up)
                          (fst (pollFolder 3 (scan_at 0 single_page ingress_down) inbox_props))))).
         is_fetch ev \<and> event_file ev = ''F1'')"
proof -
  let ?r1 = "pollFolder 3 (scan_at 0 single_page ingress_down) inbox_props"
  let ?r2 = "pollFolder 3 (scan_at 1 single_page ingress_up) (fst ?r1)"
  have s1: "?r1 = (fst ?r1, fst (snd ?r1), snd (snd ?r1))" by simp
  have s2: "?r2 = (fst ?r2, fst (snd ?r2), snd (snd ?r2))" by simp
  have h1: "f_id scan_file \<notin> set (loadSeenIds inbox_props)" by code_simp
  have h2: "forwarded (fst (snd ?r1)) = []" by code_simp
  have h3: "scan_file \<in> set (listed (fst (snd ?r2)))" by code_simp
  have h4: "SEEN_IDS_JSON (fst ?r1) = Some []" by code_simp
  have id: "f_id scan_file = ''F1''" by (simp add: scan_file_def)
  from cache_only_on_confirmed_handoff [OF s1 s2, of scan_file] h1 h2 h3
  have "\<exists>ev \<in> set (fst (snd ?r2)). is_fetch ev \<and> event_file ev = f_id scan_file"
    by simp
  with h2 h3 h4 show ?thesis unfolding id by blast
qed

text \<open>
  C3, as the code has it. Over any sequence of invocations that all returned, among any
  501 consecutive confirmed hand-offs no file id occurs twice: a file is handed off again
  only after at least 500 other ids were handed off after it and pushed it out of the
  cache. The last 500 ids handed off are in the cache the next invocation loads, and that
  invocation makes no fetch for any of them. So with no more than 501 hand-offs in all,
  every file is handed off at most once.
\<close>

theorem forwarded_once_across_completed_scans:
  assumes "run_scans fuel es p = (p', tr, True)"
  shows "distinct (take 501 (drop k (forwarded tr)))
         \<and> set (slice_last 500 (forwarded tr)) \<subseteq> set (loadSeenIds p')
         \<and> (\<forall>ev \<in> set (fst (snd (pollFolder fuel' e' p'))).
               is_fetch ev \<longrightarrow> event_file ev \<notin> set (slice_last 500 (forwarded tr)))
         \<and> (length (forwarded tr) \<le> 501 \<longrightarrow> count_list (forwarded tr) x \<le> 1)"
proof -
  have start: "suffix (slice_last 500 []) (loadSeenIds p)" "\<forall>k. distinct (take 501 (drop k ([] :: string list)))"
    by (simp_all add: slice_last_def)
  from run_scans_invariant [OF assms start]
  have inv: "suffix (slice_last 500 (forwarded tr)) (loadSeenIds p')"
    and win: "\<forall>k. distinct (take 501 (drop k (forwarded tr)))"
    by simp_all
  from win have "distinct (take 501 (drop 0 (forwarded tr)))" by blast
  then have "length (forwarded tr) \<le> 501 \<longrightarrow> count_list (forwarded tr) x \<le> 1"
    using distinct_count_list_le [of "forwarded tr" x] by auto
  moreover from inv have cached: "set (slice_last 500 (forwarded tr)) \<subseteq> set (loadSeenIds p')"
    by (rule set_mono_suffix)
  moreover have "\<forall>ev \<in> set (fst (snd (pollFolder fuel' e' p'))).
               is_fetch ev \<longrightarrow> event_file ev \<notin> set (slice_last 500 (forwarded tr))"
  proof -
    obtain p2 tr2 c2 where "pollFolder fuel' e' p' = (p2, tr2, c2)"
      by (cases "pollFolder fuel' e' p'")
    from pollFolder_summary(4) [OF this] cached this show ?thesis
      by auto
  qed
  ultimately show ?thesis
    using win by blast
qed

theorem forwarded_once_across_completed_scans_witness:
  "run_scans 3 six_scans inbox_props
     = (inbox_props\<lparr>LAST_RUN_ISO := Some ''2025-09-12T03:05:00.000Z'', SEEN_IDS_JSON := Some [''F1'']\<rparr>,
        fst (snd (run_scans 3 six_scans inbox_props)), True)
   \<and> length (filter is_drive_list (fst (snd (run_scans 3 six_scans inbox_props)))) = 6
   \<and> length (filter is_fetch (fst (snd (run_scans 3 six_scans inbox_props)))) = 1
   \<and> forwarded (fst (snd (run_scans 3 six_scans inbox_props))) = [''F1'']
   \<and> count_list (forwarded (fst (snd (run_scans 3 six_scans inbox_props)))) ''F1'' \<le> 1"
proof -
  let ?tr = "fst (snd (run_scans 3 six_scans inbox_props))"
  have run: "run_scans 3 six_scans inbox_props
     = (inbox_props\<lparr>LAST_RUN_ISO := Some ''2025-09-12T03:05:00.000Z'', SEEN_IDS_JSON := Some [''F1'']\<rparr>,
        ?tr, True)"
    by code_simp
  have lists: "length (filter is_drive_list ?tr) = 6" by code_simp
  have fetches: "length (filter is_fetch ?tr) = 1" by code_simp
  have fw: "forwarded ?tr = [''F1'']" by code_simp
  from forwarded_once_across_completed_scans [OF run, where x = "''F1''"] fw
  have "count_list (forwarded ?tr) ''F1'' \<le> 1" by simp
  with run lists fetches fw show ?thesis by blast
qed

text \<open>
  C3, as the claim states it, fails when an invocation does not return: the cache is
  persisted only at the end of \<open>pollFolder\<close>. Drive returns the receipt on a first page, the
  hand-off is confirmed, and the request for the second page throws: the id is not in the
  stored cache, and the next invocation, one minute later, hands the same file off again.
\<close>

theorem forwarded_twice_after_aborted_scan:
  "forwarded (fst (snd (pollFolder 5 (scan_at 0 second_page_fails ingress_up) inbox_props))) = [''F1'']
   \<and> snd (snd (pollFolder 5 (scan_at 0 second_page_fails ingress_up) inbox_props))
       = Threw (DriveError ''Internal Error'')
   \<and> SEEN_IDS_JSON (fst (pollFolder 5 (scan_at 0 second_page_fails ingress_up) inbox_props)) = None
   \<and> forwarded (fst (snd (run_scans 5 [scan_at 0 second_page_fails ingress_up,
                                         scan_at 1 single_page ingress_up] inbox_props)))
       = [''F1'', ''F1'']"
  by code_simp

subsection \<open>Auxiliary facts about the ledger\<close>

lemma set_UNIQUE: "set (UNIQUE xs) = set xs"
  by (simp add: UNIQUE_def)

lemma distinct_UNIQUE: "distinct (UNIQUE xs)"
  by (simp add: UNIQUE_def)

lemma status_not_review: "(st \<noteq> NEEDS_REVIEW) = (st = OK)"
  by (cases st) simp_all

lemma find_first_ok:
  assumes "r \<in> set rs" and "col_image_hash r = h" and "col_status r = OK"
  shows "\<exists>r0 \<in> set rs. find (\<lambda>r. col_image_hash r = h \<and> col_status r = OK) rs = Some r0
           \<and> col_image_hash r0 = h \<and> col_status r0 = OK"
  using assms by (induction rs) auto

lemma MONTH_TOTAL_spec_aggregate:
  assumes "same_total_per_identity rs"
  shows "MONTH_TOTAL rs = spec_aggregate rs"
proof -
  from assms have same_total:
    "\<forall>r \<in> set rs. \<forall>r' \<in> set rs. col_status r = OK \<and> col_status r' = OK
        \<and> col_image_hash r = col_image_hash r' \<longrightarrow> col_total r = col_total r'"
    unfolding same_total_per_identity_def .
  let ?P = "FILTER_not_review rs"
  let ?U = "filter (\<lambda>p. fst p \<noteq> []) (UNIQUE ?P)"
  have setP: "set ?P = {(col_image_hash r, col_total r) | r. r \<in> set rs \<and> col_status r = OK}"
    by (auto simp: FILTER_not_review_def status_not_review)
  have inU: "p \<in> set ?U \<longleftrightarrow> p \<in> set ?P \<and> fst p \<noteq> []" for p
    by (simp add: set_UNIQUE)
  have inP: "p \<in> set ?P \<longleftrightarrow> (\<exists>r \<in> set rs. col_status r = OK \<and> p = (col_image_hash r, col_total r))" for p
    unfolding setP by blast
  have tot: "snd p = identity_total rs (fst p)" if "p \<in> set ?P" for p
  proof -
    from that inP obtain r where r: "r \<in> set rs" "col_status r = OK"
      "p = (col_image_hash r, col_total r)"
      by blast
    from r(3) have fp: "col_image_hash r = fst p" by simp
    from find_first_ok [OF r(1) fp r(2)] obtain r0 where
      r0: "r0 \<in> set rs" "find (\<lambda>r. col_image_hash r = fst p \<and> col_status r = OK) rs = Some r0"
        "col_image_hash r0 = fst p" "col_status r0 = OK"
      by blast
    from same_total r0(1) r(1) r0(4) r(2) r0(3) fp have "col_total r0 = col_total r"
      by metis
    with r0(2) r(3) show ?thesis
      by (simp add: identity_total_def)
  qed
  have inj_fst: "inj_on fst (set ?U)"
  proof (rule inj_onI)
    fix p q assume "p \<in> set ?U" "q \<in> set ?U" "fst p = fst q"
    then have "p \<in> set ?P" "q \<in> set ?P" using inU by blast+
    with tot \<open>fst p = fst q\<close> have "snd p = snd q" by simp
    with \<open>fst p = fst q\<close> show "p = q" by (simp add: prod_eq_iff)
  qed
  have "distinct ?U"
    using distinct_UNIQUE by (rule distinct_filter)
  with inj_fst have dist: "distinct (map fst ?U)"
    unfolding distinct_map by blast
  have ids: "set (map fst ?U) = set (ok_identities rs)"
  proof
    show "set (map fst ?U) \<subseteq> set (ok_identities rs)"
    proof
      fix h assume "h \<in> set (map fst ?U)"
      then obtain p where p: "p \<in> set ?U" "h = fst p"
        unfolding set_map by blast
      then have "p \<in> set ?P" "fst p \<noteq> []" using inU by blast+
      with inP p(2) obtain r where "r \<in> set rs" "col_status r = OK" "col_image_hash r = h" "h \<noteq> []"
        by auto
      then show "h \<in> set (ok_identities rs)"
        by (auto simp: ok_identities_def)
    qed
    show "set (ok_identities rs) \<subseteq> set (map fst ?U)"
    proof
      fix h assume "h \<in> set (ok_identities rs)"
      then obtain r where r: "r \<in> set rs" "col_status r = OK" "col_image_hash r = h" "h \<noteq> []"
        by (auto simp: ok_identities_def)
      then have "(h, col_total r) \<in> set ?P"
        using inP by blast
      with r(4) have "(h, col_total r) \<in> set ?U"
        using inU by simp
      then have "fst (h, col_total r) \<in> set (map fst ?U)"
        unfolding set_map by (rule imageI)
      then show "h \<in> set (map fst ?U)" by simp
    qed
  qed
  have "MONTH_TOTAL rs = sum_list (map snd ?U)"
    by (simp add: MONTH_TOTAL_def QUERY_sum_def)
  also have "map snd ?U = map (identity_total rs) (map fst ?U)"
  proof -
    have "\<forall>p \<in> set ?U. snd p = (identity_total rs \<circ> fst) p"
      using tot inU by simp
    then have "map snd ?U = map (identity_total rs \<circ> fst) ?U"
      by (simp only: map_eq_conv)
    then show ?thesis by (simp only: map_map)
  qed
  also have "sum_list (map (identity_total rs) (map fst ?U)) = sum (identity_total rs) (set (map fst ?U))"
    using dist by (rule sum_list_distinct_conv_sum_set)
  also have "\<dots> = sum (identity_total rs) (set (ok_identities rs))"
    by (simp only: ids)
  also have "\<dots> = sum_list (map (identity_total rs) (ok_identities rs))"
    by (rule sum_list_distinct_conv_sum_set [symmetric]) (simp add: ok_identities_def)
  finally show ?thesis
    by (simp add: spec_aggregate_def)
qed

lemma ledger_write_invariant:
  assumes wr: "well_rendered oc"
    and inv: "\<forall>m l. s m = Some l \<longrightarrow>
                same_total_per_identity (rows l) \<and> aggregate l = Some (MONTH_TOTAL (rows l))"
  shows "\<forall>m l. ledger_write oc s m = Some l \<longrightarrow>
                same_total_per_identity (rows l) \<and> aggregate l = Some (MONTH_TOTAL (rows l))"
proof (cases oc)
  case (Duplicate k)
  with inv show ?thesis by (simp add: ledger_write_def)
next
  case (Accepted v)
  let ?mk = "v_month_key v" and ?h = "v_identity v"
  define l0 where "l0 = (case s ?mk of None \<Rightarrow> \<lparr>header = sheet_header, rows = [], aggregate = None\<rparr>
                          | Some l \<Rightarrow> l)"
  define new where "new = map (to_sheet_row (v_status v) (v_notes v)) (v_rows v)"
  from wr have "(\<forall>r \<in> set (v_rows v). rr_image_hash r = ?h)
      \<and> (\<forall>r \<in> set (v_rows v). \<forall>r' \<in> set (v_rows v). rr_total r = rr_total r')"
    unfolding well_rendered_def Accepted outcome.case .
  then have rendered: "\<forall>r \<in> set (v_rows v). rr_image_hash r = ?h"
    "\<forall>r \<in> set (v_rows v). \<forall>r' \<in> set (v_rows v). rr_total r = rr_total r'"
    by blast+
  have new_hash: "\<forall>r \<in> set new. col_image_hash r = ?h"
    using rendered(1) by (auto simp: new_def to_sheet_row_def)
  have new_total: "\<forall>r \<in> set new. \<forall>r' \<in> set new. col_total r = col_total r'"
  proof (intro ballI)
    fix r r' assume "r \<in> set new" "r' \<in> set new"
    then obtain a a' where "a \<in> set (v_rows v)" "a' \<in> set (v_rows v)"
      "col_total r = rr_total a" "col_total r' = rr_total a'"
      unfolding new_def by (auto simp: to_sheet_row_def)
    with rendered(2) show "col_total r = col_total r'" by metis
  qed
  have old: "same_total_per_identity (rows l0)"
  proof (cases "s ?mk")
    case None
    then have "rows l0 = []" by (simp add: l0_def)
    then show ?thesis by (simp add: same_total_per_identity_def)
  next
    case (Some l)
    then have "l0 = l" by (simp add: l0_def)
    with inv Some show ?thesis by blast
  qed
  show ?thesis
  proof (cases "bears_identity ?h (rows l0)")
    case True
    then obtain l where "s ?mk = Some l" "l0 = l"
      by (cases "s ?mk") (auto simp: l0_def bears_identity_def)
    then have "ledger_write oc s = s"
      using True Accepted by (auto simp: ledger_write_def Let_def l0_def [symmetric])
    with inv show ?thesis by simp
  next
    case False
    let ?app = "rows l0 @ new"
    have appended: "ledger_write oc s = s(?mk \<mapsto> l0\<lparr>rows := ?app, aggregate := Some (MONTH_TOTAL ?app)\<rparr>)"
      using False Accepted by (simp add: ledger_write_def Let_def l0_def [symmetric] new_def)
    from False have fresh: "\<forall>r \<in> set (rows l0). col_image_hash r \<noteq> ?h"
      by (auto simp: bears_identity_def)
    have "same_total_per_identity ?app"
      unfolding same_total_per_identity_def
    proof (intro ballI impI)
      fix r r' assume rr: "r \<in> set ?app" "r' \<in> set ?app"
        and eq: "col_status r = OK \<and> col_status r' = OK \<and> col_image_hash r = col_image_hash r'"
      consider "r \<in> set (rows l0)" "r' \<in> set (rows l0)" | "r \<in> set new" "r' \<in> set new"
        | "r \<in> set (rows l0)" "r' \<in> set new" | "r \<in> set new" "r' \<in> set (rows l0)"
        using rr by auto
      then show "col_total r = col_total r'"
      proof cases
        case 1
        with old eq show ?thesis unfolding same_total_per_identity_def by blast
      next
        case 2
        with new_total show ?thesis by blast
      next
        case 3
        with fresh new_hash eq show ?thesis by metis
      next
        case 4
        with fresh new_hash eq show ?thesis by metis
      qed
    qed
    with inv show ?thesis
      unfolding appended by simp
  qed
qed

lemma deliver_all_invariant:
  assumes "\<forall>oc \<in> set ocs. well_rendered oc"
    and "\<forall>m l. s m = Some l \<longrightarrow>
                same_total_per_identity (rows l) \<and> aggregate l = Some (MONTH_TOTAL (rows l))"
  shows "\<forall>m l. deliver_all ocs s m = Some l \<longrightarrow>
                same_total_per_identity (rows l) \<and> aggregate l = Some (MONTH_TOTAL (rows l))"
  using assms
proof (induction ocs arbitrary: s)
  case Nil
  then show ?case by (simp add: deliver_all_def)
next
  case (Cons oc ocs)
  from Cons.prems have "well_rendered oc" by simp
  from ledger_write_invariant [OF this Cons.prems(2)] Cons.prems(1)
  have "\<forall>m l. deliver_all ocs (ledger_write oc s) m = Some l \<longrightarrow>
                same_total_per_identity (rows l) \<and> aggregate l = Some (MONTH_TOTAL (rows l))"
    by (intro Cons.IH) simp_all
  then show ?case by (simp add: deliver_all_def)
qed

lemma validator_well_rendered: "well_rendered (validator ve r)"
  unfolding well_rendered_def validator_def Let_def render_rows_def
  by (simp split: outcome.splits)

subsection \<open>Claims about the ledger and the validator\<close>

text \<open>
  C1. In every monthly ledger that the writer has built from deliveries of rendered
  outcomes, repeated deliveries among them, the aggregate row holds the sum of \<open>total\<close>
  over the distinct content identities that are present with status OK; rows that need
  review do not count. The aggregate is the README's footer formula, which sums the unique
  pairs of image hash and total: in such a ledger that is the same number.
\<close>

theorem aggregate_is_sum_over_ok_identities:
  assumes "\<forall>oc \<in> set deliveries. well_rendered oc"
    and "deliver_all deliveries Map.empty month = Some l"
  shows "aggregate l = Some (spec_aggregate (rows l))"
proof -
  have "\<forall>m l. Map.empty m = Some l \<longrightarrow>
          same_total_per_identity (rows l) \<and> aggregate l = Some (MONTH_TOTAL (rows l))"
    by simp
  from deliver_all_invariant [OF assms(1) this] assms(2)
  have "same_total_per_identity (rows l)" "aggregate l = Some (MONTH_TOTAL (rows l))"
    by blast+
  then show ?thesis
    by (simp only: MONTH_TOTAL_spec_aggregate)
qed

theorem aggregate_is_sum_over_ok_identities_witness:
  "well_rendered h1_ok \<and> well_rendered h2_review
   \<and> map col_image_hash (rows (the (deliver_all [h1_ok, h1_ok, h2_review] Map.empty ''2025-09'')))
       = [''sha256:h1'', ''sha256:h1'', ''sha256:h2'']
   \<and> spec_aggregate (rows (the (deliver_all [h1_ok, h1_ok, h2_review] Map.empty ''2025-09''))) = 23
   \<and> aggregate (the (deliver_all [h1_ok, h1_ok, h2_review] Map.empty ''2025-09'')) = Some 23"
proof -
  let ?s = "deliver_all [h1_ok, h1_ok, h2_review] Map.empty"
  have wr: "well_rendered h1_ok" "well_rendered h2_review" by code_simp+
  then have h1: "\<forall>oc \<in> set [h1_ok, h1_ok, h2_review]. well_rendered oc" by simp
  have "?s ''2025-09'' \<noteq> None" by code_simp
  then have h2: "?s ''2025-09'' = Some (the (?s ''2025-09''))" by simp
  have hashes: "map col_image_hash (rows (the (?s ''2025-09''))) = [''sha256:h1'', ''sha256:h1'', ''sha256:h2'']"
    by code_simp
  have spec: "spec_aggregate (rows (the (?s ''2025-09''))) = 23" by code_simp
  from aggregate_is_sum_over_ok_identities [OF h1 h2] spec
  have "aggregate (the (?s ''2025-09'')) = Some 23" by simp
  with wr hashes spec show ?thesis by blast
qed

text \<open>
  C2. Delivering the same rendered outcome to the writer again changes nothing: the
  ledgers after the second delivery are the ledgers after the first, so the number of rows
  that bear its content identity is the same; and when the month's ledger already has a
  row bearing the identity, the delivery leaves the ledgers as they are.
\<close>

theorem repeated_delivery_no_op:
  assumes "well_rendered (Accepted v)"
  shows "ledger_write (Accepted v) (ledger_write (Accepted v) s) = ledger_write (Accepted v) s
         \<and> row_count (ledger_write (Accepted v) (ledger_write (Accepted v) s)) (v_month_key v) (v_identity v)
             = row_count (ledger_write (Accepted v) s) (v_month_key v) (v_identity v)
         \<and> (0 < row_count s (v_month_key v) (v_identity v) \<longrightarrow> ledger_write (Accepted v) s = s)"
proof -
  let ?mk = "v_month_key v" and ?h = "v_identity v"
  from assms have carried: "\<forall>r \<in> set (v_rows v). rr_image_hash r = ?h"
    unfolding well_rendered_def outcome.case by blast
  have present: "ledger_write (Accepted v) t = t"
    if "t ?mk = Some l" "bears_identity ?h (rows l)" for t l
    using that by (auto simp: ledger_write_def Let_def)
  have committed: "ledger_write (Accepted v) s = s" if "0 < row_count s ?mk ?h"
  proof -
    from that obtain l where l: "s ?mk = Some l" "filter (\<lambda>r. col_image_hash r = ?h) (rows l) \<noteq> []"
      by (cases "s ?mk") (auto simp: row_count_def)
    then have "bears_identity ?h (rows l)"
      by (auto simp: bears_identity_def filter_empty_conv)
    with l(1) show ?thesis by (rule present)
  qed
  define l0 where "l0 = (case s ?mk of None \<Rightarrow> \<lparr>header = sheet_header, rows = [], aggregate = None\<rparr>
                          | Some l \<Rightarrow> l)"
  define new where "new = map (to_sheet_row (v_status v) (v_notes v)) (v_rows v)"
  have again: "ledger_write (Accepted v) (ledger_write (Accepted v) s) = ledger_write (Accepted v) s"
  proof (cases "bears_identity ?h (rows l0)")
    case True
    then obtain l where "s ?mk = Some l" "l0 = l"
      by (cases "s ?mk") (auto simp: l0_def bears_identity_def)
    with True have "ledger_write (Accepted v) s = s" by (intro present) simp_all
    then show ?thesis by simp
  next
    case False
    let ?app = "rows l0 @ new"
    let ?l1 = "l0\<lparr>rows := ?app, aggregate := Some (MONTH_TOTAL ?app)\<rparr>"
    have first: "ledger_write (Accepted v) s = s(?mk \<mapsto> ?l1)"
      using False by (simp add: ledger_write_def Let_def l0_def [symmetric] new_def)
    show ?thesis
    proof (cases "v_rows v = []")
      case True
      then have "new = []" by (simp add: new_def)
      with False True show ?thesis
        unfolding first by (simp add: ledger_write_def Let_def)
    next
      case rows: False
      then obtain r where "r \<in> set (v_rows v)" by (cases "v_rows v") auto
      with carried have "to_sheet_row (v_status v) (v_notes v) r \<in> set new"
        "col_image_hash (to_sheet_row (v_status v) (v_notes v) r) = ?h"
        by (auto simp: new_def to_sheet_row_def)
      then have "bears_identity ?h (rows ?l1)"
        unfolding bears_identity_def by auto
      then show ?thesis
        unfolding first by (intro present [where l = ?l1]) simp_all
    qed
  qed
  from again committed show ?thesis by simp
qed

theorem repeated_delivery_no_op_witness:
  "well_rendered h1_ok
   \<and> row_count (ledger_write h1_ok Map.empty) ''2025-09'' ''sha256:h1'' = 2
   \<and> 0 < row_count (ledger_write h1_ok Map.empty) ''2025-09'' ''sha256:h1''
   \<and> ledger_write h1_ok (ledger_write h1_ok Map.empty) = ledger_write h1_ok Map.empty
   \<and> row_count (ledger_write h1_ok (ledger_write h1_ok Map.empty)) ''2025-09'' ''sha256:h1'' = 2"
proof -
  let ?v = "\<lparr>v_identity = ''sha256:h1'', v_month_key = ''2025-09'',
      v_rows = [\<lparr>rr_date = ''2025-09-10'', rr_vendor = ''7-Eleven'', rr_item = ''Milk 1L'',
                  rr_line_total = 65 / 10, rr_total = 23, rr_image_hash = ''sha256:h1''\<rparr>,
                \<lparr>rr_date = ''2025-09-10'', rr_vendor = ''7-Eleven'', rr_item = ''Bread'',
                  rr_line_total = 165 / 10, rr_total = 23, rr_image_hash = ''sha256:h1''\<rparr>],
      v_notes = [], v_status = OK\<rparr>"
  have v: "h1_ok = Accepted ?v" by (simp add: h1_ok_def)
  have h: "well_rendered h1_ok" by code_simp
  have n: "row_count (ledger_write h1_ok Map.empty) ''2025-09'' ''sha256:h1'' = 2" by code_simp
  from repeated_delivery_no_op [OF h [unfolded v], of "ledger_write h1_ok Map.empty"] n
  have "ledger_write h1_ok (ledger_write h1_ok Map.empty) = ledger_write h1_ok Map.empty"
    unfolding v [symmetric] by simp
  with h n show ?thesis by simp
qed

text \<open>
  C9, as the spec has it. For a record that is not a duplicate of a committed one: when the
  schema check raised no note and the sum of the line totals is within epsilon of the
  total, the status is OK; when the sum is beyond epsilon, the status is NEEDS_REVIEW, the
  notes hold the mismatch note, and the rows are rendered all the same, one per line item.
  A record whose dedupe key is committed gets the Duplicate verdict, whatever its totals.
\<close>

theorem reconciliation_status:
  "(dedupe_key_of (normalize ve r) \<notin> set (committed ve) \<longrightarrow>
      (\<bar>items_sum (normalize ve r) - total (normalize ve r)\<bar> \<le> TOTALS_EPSILON ve
         \<and> schema_check ve r = []
         \<longrightarrow> outcome_status (validator ve r) = Some OK \<and> outcome_notes (validator ve r) = [])
    \<and> (TOTALS_EPSILON ve < \<bar>items_sum (normalize ve r) - total (normalize ve r)\<bar>
         \<longrightarrow> outcome_status (validator ve r) = Some NEEDS_REVIEW
             \<and> mismatch_note \<in> set (outcome_notes (validator ve r))
             \<and> outcome_rows (validator ve r) = render_rows (normalize ve r)
             \<and> length (outcome_rows (validator ve r)) = length (items (normalize ve r))))
   \<and> (dedupe_key_of (normalize ve r) \<in> set (committed ve) \<longrightarrow>
        validator ve r = Duplicate (dedupe_key_of (normalize ve r)))"
  by (simp add: validator_def Let_def reconcile_def outcome_status_def outcome_notes_def
        outcome_rows_def render_rows_def)

theorem reconciliation_status_witness:
  "dedupe_key_of (normalize plain_validator milk_receipt) \<notin> set (committed plain_validator)
   \<and> \<bar>items_sum milk_receipt - total milk_receipt\<bar> \<le> TOTALS_EPSILON plain_validator
   \<and> outcome_status (validator plain_validator milk_receipt) = Some OK
   \<and> TOTALS_EPSILON plain_validator < \<bar>items_sum (milk_receipt\<lparr>total := 24\<rparr>) - total (milk_receipt\<lparr>total := 24\<rparr>)\<bar>
   \<and> outcome_status (validator plain_validator (milk_receipt\<lparr>total := 24\<rparr>)) = Some NEEDS_REVIEW
   \<and> mismatch_note \<in> set (outcome_notes (validator plain_validator (milk_receipt\<lparr>total := 24\<rparr>)))
   \<and> length (outcome_rows (validator plain_validator (milk_receipt\<lparr>total := 24\<rparr>))) = 2"
proof -
  let ?r = "milk_receipt\<lparr>total := 24\<rparr>"
  have n: "normalize plain_validator = (\<lambda>r. r)" by (simp add: plain_validator_def)
  have k1: "dedupe_key_of (normalize plain_validator milk_receipt) \<notin> set (committed plain_validator)"
    by code_simp
  have k2: "dedupe_key_of (normalize plain_validator ?r) \<notin> set (committed plain_validator)"
    by code_simp
  have e1: "\<bar>items_sum milk_receipt - total milk_receipt\<bar> \<le> TOTALS_EPSILON plain_validator"
    by code_simp
  have s1: "schema_check plain_validator milk_receipt = []" by code_simp
  have e2: "TOTALS_EPSILON plain_validator < \<bar>items_sum ?r - total ?r\<bar>" by code_simp
  have len: "length (items ?r) = 2" by code_simp
  from reconciliation_status [of plain_validator milk_receipt] k1 e1 s1
  have ok: "outcome_status (validator plain_validator milk_receipt) = Some OK"
    unfolding n by blast
  from reconciliation_status [of plain_validator ?r] k2 e2
  have "outcome_status (validator plain_validator ?r) = Some NEEDS_REVIEW
      \<and> mismatch_note \<in> set (outcome_notes (validator plain_validator ?r))
      \<and> length (outcome_rows (validator plain_validator ?r)) = length (items ?r)"
    unfolding n by blast
  then have review: "outcome_status (validator plain_validator ?r) = Some NEEDS_REVIEW"
    "mismatch_note \<in> set (outcome_notes (validator plain_validator ?r))"
    "length (outcome_rows (validator plain_validator ?r)) = 2"
    unfolding len by blast+
  from k1 e1 ok e2 review show ?thesis by blast
qed

text \<open>
  C9, as the claim states it, speaks of every record. A record whose totals agree and whose
  content identity is already committed gets no status at all but the Duplicate verdict; a
  record whose totals agree and whose vendor is missing gets NEEDS_REVIEW; and a duplicate
  whose totals disagree gets the Duplicate verdict and no rows.
\<close>

theorem reconciled_record_without_status_ok:
  "\<bar>items_sum milk_receipt - total milk_receipt\<bar> \<le> TOTALS_EPSILON plain_validator
   \<and> validator (plain_validator\<lparr>committed := [ByHash ''sha256:h1'']\<rparr>) milk_receipt
       = Duplicate (ByHash ''sha256:h1'')
   \<and> outcome_status (validator (plain_validator\<lparr>committed := [ByHash ''sha256:h1'']\<rparr>) milk_receipt)
       \<noteq> Some OK
   \<and> \<bar>items_sum (milk_receipt\<lparr>vendor := ''''\<rparr>) - total (milk_receipt\<lparr>vendor := ''''\<rparr>)\<bar>
       \<le> TOTALS_EPSILON plain_validator
   \<and> outcome_status (validator plain_validator (milk_receipt\<lparr>vendor := ''''\<rparr>)) = Some NEEDS_REVIEW
   \<and> TOTALS_EPSILON plain_validator
       < \<bar>items_sum (milk_receipt\<lparr>total := 24\<rparr>) - total (milk_receipt\<lparr>total := 24\<rparr>)\<bar>
   \<and> outcome_status (validator (plain_validator\<lparr>committed := [ByHash ''sha256:h1'']\<rparr>)
         (milk_receipt\<lparr>total := 24\<rparr>)) \<noteq> Some NEEDS_REVIEW
   \<and> outcome_rows (validator (plain_validator\<lparr>committed := [ByHash ''sha256:h1'']\<rparr>)
         (milk_receipt\<lparr>total := 24\<rparr>)) = []"
  by code_simp

end
